theory Spec2Isabelle
  imports Complex_Main "HOL-Library.Monad_Syntax" "HOL-Library.Log_Nat"
begin

section \<open>SampleImageTiles: the grid tiling sampler of \<^verbatim>\<open>wndcharm/utils.py\<close>\<close>

text \<open>
  The class \<^verbatim>\<open>SampleImageTiles\<close> wraps an image and two tiling parameters. Its
  constructor computes the tile geometry; its generator method \<^verbatim>\<open>sample\<close> walks
  the image with two nested \<^verbatim>\<open>while\<close> loops and yields one sub-image per step.

  The image class \<^verbatim>\<open>wndcharm.ImageMatrix\<close> is a wrapped C++ object. The Python code
  reads only its \<^verbatim>\<open>width\<close> and \<^verbatim>\<open>height\<close> and calls \<^verbatim>\<open>OpenImage\<close> and
  \<^verbatim>\<open>submatrix\<close> on it, so an image is a record of its two extents, and a yielded tile
  is identified with the bounding box handed to \<^verbatim>\<open>submatrix\<close>.
\<close>

record ImageMatrix =
  width :: nat
  height :: nat

text \<open>
  The exceptions the constructor can leave with. \<^verbatim>\<open>ValueError\<close> is what the three
  \<^verbatim>\<open>raise\<close> statements raise; \<^verbatim>\<open>ZeroDivisionError\<close> is what Python's integer
  division raises for a zero divisor. \<^verbatim>\<open>TypeError\<close> and \<^verbatim>\<open>InputError\<close> are never
  raised by the code; they are in the type so that statements about them can be written.
\<close>

datatype exn = ValueError | TypeError | InputError | ZeroDivisionError

text \<open>
  The argument \<^verbatim>\<open>image_in\<close> as the two \<^verbatim>\<open>isinstance\<close> tests see it: a \<^verbatim>\<open>str\<close>,
  a \<^verbatim>\<open>wndcharm.ImageMatrix\<close>, or any other object.
\<close>

datatype image_in = Str string | Matrix ImageMatrix | Other

text \<open>
  What the constructor asks of the outside world: \<^verbatim>\<open>os.path.exists\<close>, and
  \<^verbatim>\<open>ImageMatrix.OpenImage\<close>, which returns 1 and fills the image on success
  (\<open>Some\<close>) and another value on failure (\<open>None\<close>).
\<close>

record env =
  exists :: "string \<Rightarrow> bool"
  OpenImage :: "string \<Rightarrow> ImageMatrix option"

text \<open>
  The instance attributes. The cursor attributes \<^verbatim>\<open>current_row\<close>, \<^verbatim>\<open>current_col\<close>,
  \<^verbatim>\<open>current_x\<close>, \<^verbatim>\<open>current_y\<close> are created by the first assignments in
  \<^verbatim>\<open>sample\<close>; the record carries 0 in them until then, and \<^verbatim>\<open>sample\<close> writes each
  of them before it reads it.
\<close>

record sampler =
  image :: ImageMatrix
  tile_width :: int
  tile_height :: int
  tiles_x :: int
  tiles_y :: int
  samples :: int
  current_row :: int
  current_col :: int
  current_x :: int
  current_y :: int

text \<open>Lines 201-211: resolving \<^verbatim>\<open>image_in\<close> to an image, or raising.\<close>

definition load_image :: "env \<Rightarrow> image_in \<Rightarrow> exn + ImageMatrix" where
  "load_image e image_in =
     (case image_in of
        Str path \<Rightarrow>
          (if \<not> exists e path then Inl ValueError
           else (case OpenImage e path of
                   None \<Rightarrow> Inl ValueError
                 | Some img \<Rightarrow> Inr img))
      | Matrix img \<Rightarrow> Inr img
      | Other \<Rightarrow> Inl ValueError)"

text \<open>
  Lines 213-224. \<^verbatim>\<open>x\<close> and \<^verbatim>\<open>y\<close> are Python integers; \<^verbatim>\<open>/\<close> between two
  integers is Python 2's floor division, which is \<open>div\<close> on \<open>int\<close>, and raises
  \<^verbatim>\<open>ZeroDivisionError\<close> for a zero divisor. Both branches divide by \<^verbatim>\<open>x\<close> first and
  by \<^verbatim>\<open>y\<close> second.
\<close>

definition SampleImageTiles_init ::
  "env \<Rightarrow> image_in \<Rightarrow> int \<Rightarrow> int \<Rightarrow> bool \<Rightarrow> exn + sampler" where
  "SampleImageTiles_init e image_in x y is_fixed =
     (case load_image e image_in of
        Inl err \<Rightarrow> Inl err
      | Inr img \<Rightarrow>
          (if x = 0 \<or> y = 0 then Inl ZeroDivisionError
           else if is_fixed then
             Inr \<lparr>image = img, tile_width = x, tile_height = y,
                  tiles_x = int (width img) div x, tiles_y = int (height img) div y,
                  samples = (int (width img) div x) * (int (height img) div y),
                  current_row = 0, current_col = 0, current_x = 0, current_y = 0\<rparr>
           else
             Inr \<lparr>image = img, tile_width = int (width img) div x,
                  tile_height = int (height img) div y,
                  tiles_x = x, tiles_y = y, samples = x * y,
                  current_row = 0, current_col = 0, current_x = 0, current_y = 0\<rparr>))"

text \<open>
  The local variables of the generator frame, read once from the instance when the
  generator starts (lines 227-231); the loops test and step by these.
\<close>

record frame =
  f_width :: int
  f_height :: int
  max_x :: int
  max_y :: int

definition enter :: "sampler \<Rightarrow> frame" where
  "enter s = \<lparr>f_width = tile_width s, f_height = tile_height s,
              max_x = int (width (image s)), max_y = int (height (image s))\<rparr>"

text \<open>
  One yielded item: the bounding box \<^verbatim>\<open>bb\<close> passed to \<^verbatim>\<open>submatrix\<close>, and the instance
  as the caller sees it while the generator is suspended at that \<^verbatim>\<open>yield\<close>.
\<close>

type_synonym bbox = "int \<times> int \<times> int \<times> int"

type_synonym yielded = "bbox \<times> sampler"

definition bb :: "frame \<Rightarrow> sampler \<Rightarrow> bbox" where
  "bb f s = (current_x s, current_y s,
             current_x s + f_width f - 1, current_y s + f_height f - 1)"

text \<open>
  The inner loop (lines 237-244) and the outer loop (lines 234-246). A pass that is
  consumed to the end returns the final instance and the items it yielded, in order;
  a pass that never ends has the value \<open>None\<close>.
\<close>

partial_function (option) col_loop ::
  "frame \<Rightarrow> sampler \<Rightarrow> yielded list \<Rightarrow> (sampler \<times> yielded list) option" where
  "col_loop f s acc =
     (if current_x s + f_width f \<le> max_x f
      then col_loop f
             (s\<lparr>current_x := current_x s + f_width f, current_col := current_col s + 1\<rparr>)
             (acc @ [(bb f s, s)])
      else Some (s, acc))"

partial_function (option) row_loop ::
  "frame \<Rightarrow> sampler \<Rightarrow> yielded list \<Rightarrow> (sampler \<times> yielded list) option" where
  "row_loop f s acc =
     (if current_y s + f_height f \<le> max_y f
      then col_loop f (s\<lparr>current_col := 0, current_x := 0\<rparr>) acc \<bind>
             (\<lambda>(s', acc').
                row_loop f
                  (s'\<lparr>current_y := current_y s' + f_height f,
                      current_row := current_row s' + 1\<rparr>)
                  acc')
      else Some (s, acc))"

declare col_loop.simps [code]
declare row_loop.simps [code]

definition sample :: "sampler \<Rightarrow> (sampler \<times> yielded list) option" where
  "sample s = row_loop (enter s) (s\<lparr>current_row := 0, current_y := 0\<rparr>) []"

text \<open>
  The same method one step at a time, for what the caller can see while a pass is under
  way or never ends. A generator object is created by the call \<^verbatim>\<open>sample()\<close> and runs
  nothing until it is first resumed; after that it stands at the test of the outer loop
  (line 234), at the test of the inner loop (line 237), suspended at the \<^verbatim>\<open>yield\<close>
  (line 242), or it has returned. \<open>advance\<close> runs it to the next of these places:
  lines 227-233 from the start, lines 235-236 or the return from the outer test, nothing
  or lines 245-246 from the inner test, lines 243-244 from the \<^verbatim>\<open>yield\<close>.
\<close>

datatype generator = Created | Outer frame | Inner frame | Suspended frame | Exhausted

fun advance :: "generator \<Rightarrow> sampler \<Rightarrow> generator \<times> sampler" where
  "advance Created s = (Outer (enter s), s\<lparr>current_row := 0, current_y := 0\<rparr>)"
| "advance (Outer f) s =
     (if current_y s + f_height f \<le> max_y f
      then (Inner f, s\<lparr>current_col := 0, current_x := 0\<rparr>)
      else (Exhausted, s))"
| "advance (Inner f) s =
     (if current_x s + f_width f \<le> max_x f
      then (Suspended f, s)
      else (Outer f, s\<lparr>current_y := current_y s + f_height f,
                        current_row := current_row s + 1\<rparr>))"
| "advance (Suspended f) s =
     (Inner f, s\<lparr>current_x := current_x s + f_width f, current_col := current_col s + 1\<rparr>)"
| "advance Exhausted s = (Exhausted, s)"

text \<open>
  \<open>tick\<close> advances one generator and records the item when it arrives at a \<^verbatim>\<open>yield\<close>;
  \<open>run n s\<close> is a fresh pass over the instance \<open>s\<close> after \<open>n\<close> steps: where the
  generator stands, the instance, and the items yielded so far.
\<close>

fun tick :: "generator \<times> sampler \<times> yielded list \<Rightarrow> generator \<times> sampler \<times> yielded list" where
  "tick (g, s, ys) =
     (case advance g s of
        (Suspended f, s') \<Rightarrow> (Suspended f, s', ys @ [(bb f s', s')])
      | (g', s') \<Rightarrow> (g', s', ys))"

definition run :: "nat \<Rightarrow> sampler \<Rightarrow> generator \<times> sampler \<times> yielded list" where
  "run n s = (tick ^^ n) (Created, s, [])"

text \<open>
  What a caller can do to an instance through this class, in any order and any number
  of times: call \<^verbatim>\<open>sample()\<close>, which creates one more generator over the instance, and
  advance the \<open>i\<close>-th generator created so far. All generators share the cursor of the
  instance. (Python resumes a generator from one \<^verbatim>\<open>yield\<close> to the next without
  interruption; advancing step by step allows every such history and more.)
\<close>

datatype action = Sample | Advance nat

fun act :: "action \<Rightarrow> sampler \<times> generator list \<Rightarrow> sampler \<times> generator list" where
  "act Sample (s, gs) = (s, gs @ [Created])"
| "act (Advance i) (s, gs) =
     (if i < length gs
      then (case advance (gs ! i) s of (g, s') \<Rightarrow> (s', gs[i := g]))
      else (s, gs))"

definition after :: "sampler \<Rightarrow> action list \<Rightarrow> sampler \<times> generator list" where
  "after s as = foldl (\<lambda>c a. act a c) (s, []) as"

text \<open>The attributes the constructor computes, as opposed to the cursor.\<close>

definition geometry :: "sampler \<Rightarrow> ImageMatrix \<times> int \<times> int \<times> int \<times> int \<times> int" where
  "geometry s = (image s, tile_width s, tile_height s, tiles_x s, tiles_y s, samples s)"

text \<open>
  For stating what a pass yields when both tile extents are positive: the number of steps
  of size \<open>step\<close> that fit between \<open>start\<close> and \<open>limit\<close>, the instance after \<open>k\<close> steps of the
  inner loop, the instance at the yield in row \<open>r\<close> and column \<open>k\<close>, and the list of the items
  of \<open>m\<close> rows of \<open>n\<close> columns in the order of the two loops.
\<close>

definition fit :: "int \<Rightarrow> int \<Rightarrow> int \<Rightarrow> nat" where
  "fit limit start step = nat ((limit - start) div step)"

definition at_col :: "sampler \<Rightarrow> frame \<Rightarrow> nat \<Rightarrow> sampler" where
  "at_col s f k = s\<lparr>current_x := current_x s + int k * f_width f,
                     current_col := current_col s + int k\<rparr>"

definition cell :: "sampler \<Rightarrow> frame \<Rightarrow> nat \<Rightarrow> nat \<Rightarrow> sampler" where
  "cell s f r k = s\<lparr>current_row := current_row s + int r,
                      current_y := current_y s + int r * f_height f,
                      current_col := int k, current_x := int k * f_width f\<rparr>"

definition grid :: "sampler \<Rightarrow> frame \<Rightarrow> nat \<Rightarrow> nat \<Rightarrow> yielded list" where
  "grid s f m n = concat (map (\<lambda>r. map (\<lambda>k. (bb f (cell s f r k), cell s f r k)) [0..<n]) [0..<m])"

text \<open>An outside world with no files, for constructing from an image handle.\<close>

definition no_files :: env where
  "no_files = \<lparr>exists = (\<lambda>p. False), OpenImage = (\<lambda>p. None)\<rparr>"

text \<open>
  Concrete instances used below: the spec's example of a 105 by 52 image cut into 4 by 3
  tiles, a 10 by 10 image asked for 4 by 4 tiles, a 3 by 3 image asked for 5 by 5 tiles,
  and an outside world with one image file and one file that is not an image.
\<close>

definition fits_12 :: sampler where
  "fits_12 = \<lparr>image = \<lparr>width = 105, height = 52\<rparr>, tile_width = 26, tile_height = 17,
     tiles_x = 4, tiles_y = 3, samples = 12,
     current_row = 0, current_col = 0, current_x = 0, current_y = 0\<rparr>"

definition over_16 :: sampler where
  "over_16 = \<lparr>image = \<lparr>width = 10, height = 10\<rparr>, tile_width = 2, tile_height = 2,
     tiles_x = 4, tiles_y = 4, samples = 16,
     current_row = 0, current_col = 0, current_x = 0, current_y = 0\<rparr>"

definition stuck_25 :: sampler where
  "stuck_25 = \<lparr>image = \<lparr>width = 3, height = 3\<rparr>, tile_width = 0, tile_height = 0,
     tiles_x = 5, tiles_y = 5, samples = 25,
     current_row = 0, current_col = 0, current_x = 0, current_y = 0\<rparr>"

definition one_file :: env where
  "one_file = \<lparr>exists = (\<lambda>p. p = ''a.tif'' \<or> p = ''b.txt''),
               OpenImage = (\<lambda>p. if p = ''a.tif'' then Some \<lparr>width = 100, height = 50\<rparr> else None)\<rparr>"

section \<open>Double precision numbers\<close>

text \<open>
  \<^verbatim>\<open>normalize_by_columns\<close> works on a numpy array of dtype \<^verbatim>\<open>float64\<close>. An entry is
  NaN, one of the two infinities, or a finite number, kept as the rational number it
  denotes. The two zeros of IEEE 754 are one value here: the routine never divides by a
  zero it has not masked, so the sign of a zero never reaches an output, and \<^verbatim>\<open>-0.0\<close>
  equals \<^verbatim>\<open>0.0\<close> in Python.
\<close>

datatype fval = NaN | NInf | Fin rat | PInf

text \<open>
  Rounding to the nearest double, ties to even. \<open>ilog2 x\<close> is the binary exponent of
  \<open>x\<close> (\<open>2 powi ilog2 x \<le> \<bar>x\<bar> < 2 powi (ilog2 x + 1)\<close>, proved below as \<open>ilog2_bounds\<close>),
  computed from the bit lengths of numerator and denominator. \<open>ulp_exp x\<close> is the exponent
  of the unit in the last place of the 53-bit significand, not below the subnormal
  exponent \<open>-1074\<close>. \<open>nearest64 x\<close> is the multiple of that unit nearest to \<open>x\<close>, and
  \<open>round64\<close> overflows to an infinity from \<open>2 powi 1024\<close> on.
\<close>

definition ilog2 :: "rat \<Rightarrow> int" where
  "ilog2 x = (let (a, b) = quotient_of \<bar>x\<bar>; l = bitlen a - bitlen b
              in if 2 powi l \<le> \<bar>x\<bar> then l else l - 1)"

definition rne :: "rat \<Rightarrow> int" where
  "rne y = (let n = \<lfloor>y\<rfloor>; r = y - of_int n
            in if r < 1 / 2 then n
               else if 1 / 2 < r then n + 1
               else if even n then n else n + 1)"

definition ulp_exp :: "rat \<Rightarrow> int" where
  "ulp_exp x = max (ilog2 x - 52) (- 1074)"

definition nearest64 :: "rat \<Rightarrow> rat" where
  "nearest64 x = of_int (rne (x / 2 powi ulp_exp x)) * 2 powi ulp_exp x"

definition round64 :: "rat \<Rightarrow> fval" where
  "round64 x =
     (let r = nearest64 x
      in if 2 powi 1024 \<le> r then PInf
         else if r \<le> - (2 powi 1024) then NInf
         else Fin r)"

text \<open>
  \<^verbatim>\<open>np.finfo(float).tiny\<close>, the smallest positive normal double, and the default fill
  value \<^verbatim>\<open>1e20\<close> of a masked array of floats.
\<close>

definition tiny :: rat where
  "tiny = 2 powi (- 1022)"

definition default_fill_value :: rat where
  "default_fill_value = 10 ^ 20"

text \<open>
  The arithmetic of the routine on these values: \<^verbatim>\<open>np.isfinite\<close>, \<^verbatim>\<open>np.absolute\<close>,
  subtraction, multiplication, division, \<^verbatim>\<open>>=\<close>, \<^verbatim>\<open>np.minimum\<close> and \<^verbatim>\<open>np.maximum\<close>.
  A finite result is rounded; NaN propagates; a comparison with NaN is false;
  \<^verbatim>\<open>np.minimum\<close> and \<^verbatim>\<open>np.maximum\<close> return NaN when an operand is NaN. The routine runs
  under \<^verbatim>\<open>np.seterr(all='ignore')\<close>, so no operation raises.
\<close>

fun isfinite :: "fval \<Rightarrow> bool" where
  "isfinite (Fin x) = True"
| "isfinite v = False"

fun fabs :: "fval \<Rightarrow> fval" where
  "fabs NaN = NaN"
| "fabs NInf = PInf"
| "fabs PInf = PInf"
| "fabs (Fin x) = Fin \<bar>x\<bar>"

fun fsgn :: "fval \<Rightarrow> rat" where
  "fsgn NaN = 0"
| "fsgn NInf = - 1"
| "fsgn PInf = 1"
| "fsgn (Fin x) = sgn x"

definition signed_inf :: "rat \<Rightarrow> fval" where
  "signed_inf s = (if s = 0 then NaN else if 0 < s then PInf else NInf)"

fun fsub :: "fval \<Rightarrow> fval \<Rightarrow> fval" where
  "fsub NaN b = NaN"
| "fsub a NaN = NaN"
| "fsub (Fin x) (Fin y) = round64 (x - y)"
| "fsub (Fin x) PInf = NInf"
| "fsub (Fin x) NInf = PInf"
| "fsub PInf PInf = NaN"
| "fsub NInf NInf = NaN"
| "fsub PInf b = PInf"
| "fsub NInf b = NInf"

fun fmul :: "fval \<Rightarrow> fval \<Rightarrow> fval" where
  "fmul NaN b = NaN"
| "fmul a NaN = NaN"
| "fmul (Fin x) (Fin y) = round64 (x * y)"
| "fmul a b = signed_inf (fsgn a * fsgn b)"

fun fdiv :: "fval \<Rightarrow> fval \<Rightarrow> fval" where
  "fdiv NaN b = NaN"
| "fdiv a NaN = NaN"
| "fdiv (Fin x) (Fin y) = (if y = 0 then signed_inf (sgn x) else round64 (x / y))"
| "fdiv (Fin x) b = Fin 0"
| "fdiv a (Fin y) = signed_inf (fsgn a * (if y < 0 then - 1 else 1))"
| "fdiv a b = NaN"

fun fle :: "fval \<Rightarrow> fval \<Rightarrow> bool" where
  "fle NaN b = False"
| "fle a NaN = False"
| "fle NInf b = True"
| "fle a PInf = True"
| "fle (Fin x) (Fin y) = (x \<le> y)"
| "fle a b = False"

definition fge :: "fval \<Rightarrow> fval \<Rightarrow> bool" where
  "fge a b = fle b a"

definition fminimum :: "fval \<Rightarrow> fval \<Rightarrow> fval" where
  "fminimum a b = (if a = NaN \<or> b = NaN then NaN else if fle a b then a else b)"

definition fmaximum :: "fval \<Rightarrow> fval \<Rightarrow> fval" where
  "fmaximum a b = (if a = NaN \<or> b = NaN then NaN else if fle a b then b else a)"

section \<open>The numpy arrays of the normalization routine\<close>

text \<open>
  \<^verbatim>\<open>full_stack\<close> is a two-dimensional array of shape \<open>(length rows, ncols)\<close>, stored by
  rows. A masked array is an array with a mask of the same shape (\<open>True\<close> marks an entry
  as masked); \<^verbatim>\<open>np.ma.masked_invalid(a, copy=False)\<close> shares its data with \<open>a\<close>. \<open>mins\<close> and
  \<open>maxs\<close> are one-dimensional: plain arrays when the caller supplies them (no mask, here
  an all-\<open>False\<close> mask), masked arrays when the routine derives them.
\<close>

record ndarray =
  ncols :: nat
  rows :: "fval list list"

record masked_array =
  base :: ndarray
  mask :: "bool list list"

record masked_vector =
  vdata :: "fval list"
  vmask :: "bool list"

text \<open>
  An operation that raises returns \<open>Inl\<close>; \<open>raise_or\<close> runs the next step only after a
  step that returned. numpy broadcasts a one-dimensional operand against \<open>n\<close> columns when
  its length is \<open>n\<close> or 1 and raises \<^verbatim>\<open>ValueError\<close> otherwise.
\<close>

definition raise_or :: "exn + 'a \<Rightarrow> ('a \<Rightarrow> exn + 'b) \<Rightarrow> exn + 'b" where
  "raise_or r k = (case r of Inl e \<Rightarrow> Inl e | Inr v \<Rightarrow> k v)"

definition plain :: "fval list \<Rightarrow> masked_vector" where
  "plain v = \<lparr>vdata = v, vmask = replicate (length v) False\<rparr>"

definition broadcast :: "nat \<Rightarrow> 'a list \<Rightarrow> exn + 'a list" where
  "broadcast n v =
     (if length v = n then Inr v
      else if length v = 1 then Inr (replicate n (hd v))
      else Inl ValueError)"

definition masked_invalid :: "ndarray \<Rightarrow> masked_array" where
  "masked_invalid a = \<lparr>base = a, mask = map (map (\<lambda>v. \<not> isfinite v)) (rows a)\<rparr>"

definition column :: "'a list list \<Rightarrow> nat \<Rightarrow> 'a list" where
  "column xss c = map (\<lambda>r. r ! c) xss"

definition filled_list :: "fval list \<Rightarrow> bool list \<Rightarrow> fval \<Rightarrow> fval list" where
  "filled_list vs ks fill = map (\<lambda>(v, k). if k then fill else v) (zip vs ks)"

text \<open>
  \<^verbatim>\<open>full_stack_m.max(axis=0)\<close> and \<^verbatim>\<open>.min(axis=0)\<close>: numpy fills the masked entries (with
  \<open>-inf\<close> for the maximum, \<open>+inf\<close> for the minimum), reduces each column, which raises
  \<^verbatim>\<open>ValueError\<close> when the array has no rows (a reduction over an axis of length 0, also
  for the shape \<open>(0, 0)\<close>), masks the result of a column whose entries are all masked, and
  writes the default fill value into the data of such a result.
\<close>

fun reduce :: "(fval \<Rightarrow> fval \<Rightarrow> fval) \<Rightarrow> fval list \<Rightarrow> exn + fval" where
  "reduce f [] = Inl ValueError"
| "reduce f (x # xs) = Inr (foldl f x xs)"

fun collect :: "(exn + 'a) list \<Rightarrow> exn + 'a list" where
  "collect [] = Inr []"
| "collect (r # rs) = raise_or r (\<lambda>v. raise_or (collect rs) (\<lambda>vs. Inr (v # vs)))"

definition ma_reduce ::
  "(fval \<Rightarrow> fval \<Rightarrow> fval) \<Rightarrow> fval \<Rightarrow> masked_array \<Rightarrow> exn + masked_vector" where
  "ma_reduce f fill m =
     (if rows (base m) = [] then Inl ValueError
      else
        raise_or
          (collect (map (\<lambda>c. reduce f (filled_list (column (rows (base m)) c) (column (mask m) c) fill))
                     [0..<ncols (base m)]))
          (\<lambda>red.
             let newmask = map (\<lambda>c. list_all (\<lambda>k. k) (column (mask m) c)) [0..<ncols (base m)]
             in Inr \<lparr>vdata = filled_list red newmask (Fin default_fill_value), vmask = newmask\<rparr>))"

definition ma_max :: "masked_array \<Rightarrow> exn + masked_vector" where
  "ma_max m = ma_reduce fmaximum NInf m"

definition ma_min :: "masked_array \<Rightarrow> exn + masked_vector" where
  "ma_min m = ma_reduce fminimum PInf m"

text \<open>
  \<^verbatim>\<open>full_stack.clip(mins, maxs, full_stack)\<close> with array bounds is
  \<^verbatim>\<open>maximum(minimum(a, maxs), mins)\<close> on the data of its arguments, written back into
  \<^verbatim>\<open>full_stack\<close>.
\<close>

definition clip1 :: "fval \<Rightarrow> fval \<Rightarrow> fval \<Rightarrow> fval" where
  "clip1 v lo hi = fmaximum (fminimum v hi) lo"

definition clip :: "ndarray \<Rightarrow> fval list \<Rightarrow> fval list \<Rightarrow> exn + ndarray" where
  "clip a a_min a_max =
     raise_or (broadcast (ncols a) a_min) (\<lambda>lo.
     raise_or (broadcast (ncols a) a_max) (\<lambda>hi.
       Inr (a\<lparr>rows := map (\<lambda>r. map (\<lambda>(v, l, h). clip1 v l h) (zip r (zip lo hi)))
                          (rows a)\<rparr>)))"

text \<open>
  The in-place operators of a masked array. \<^verbatim>\<open>m -= other\<close> adds the mask of \<open>other\<close> to
  the mask and subtracts, 0 at masked entries. \<^verbatim>\<open>maxs - mins\<close> masks where either operand
  is masked and keeps the left operand in the data there. \<^verbatim>\<open>m /= other\<close> also masks the
  entries where \<^verbatim>\<open>absolute(a) * tiny >= absolute(b)\<close> (which holds for every divisor 0),
  and divides by 1 at masked entries. \<^verbatim>\<open>filled(0)\<close> replaces the masked entries by 0.
\<close>

definition ma_isub :: "masked_array \<Rightarrow> masked_vector \<Rightarrow> exn + masked_array" where
  "ma_isub m other =
     raise_or (broadcast (ncols (base m)) (vdata other)) (\<lambda>od.
     raise_or (broadcast (ncols (base m)) (vmask other)) (\<lambda>om.
       let newmask = map (\<lambda>ks. map (\<lambda>(k, q). k \<or> q) (zip ks om)) (mask m)
       in Inr \<lparr>base = (base m)\<lparr>rows :=
                   map (\<lambda>(r, ks). map (\<lambda>(v, k, d). fsub v (if k then Fin 0 else d)) (zip r (zip ks od)))
                     (zip (rows (base m)) newmask)\<rparr>,
                mask = newmask\<rparr>))"

definition ma_sub :: "masked_vector \<Rightarrow> masked_vector \<Rightarrow> exn + masked_vector" where
  "ma_sub a b =
     (let n = (if length (vdata a) = 1 then length (vdata b) else length (vdata a)) in
      raise_or (broadcast n (vdata a)) (\<lambda>da.
      raise_or (broadcast n (vdata b)) (\<lambda>db.
      raise_or (broadcast n (vmask a)) (\<lambda>ka.
      raise_or (broadcast n (vmask b)) (\<lambda>kb.
        let m = map (\<lambda>(p, q). p \<or> q) (zip ka kb)
        in Inr \<lparr>vdata = map (\<lambda>((x, y), k). if k then x else fsub x y) (zip (zip da db) m),
                 vmask = m\<rparr>)))))"

definition domain_safe_divide :: "fval \<Rightarrow> fval \<Rightarrow> bool" where
  "domain_safe_divide a b = fge (fmul (fabs a) (Fin tiny)) (fabs b)"

definition ma_idiv :: "masked_array \<Rightarrow> masked_vector \<Rightarrow> exn + masked_array" where
  "ma_idiv m other =
     raise_or (broadcast (ncols (base m)) (vdata other)) (\<lambda>od.
     raise_or (broadcast (ncols (base m)) (vmask other)) (\<lambda>om.
       let dom_mask = map (\<lambda>r. map (\<lambda>(v, d). domain_safe_divide v d) (zip r od)) (rows (base m));
           new_mask = map (\<lambda>ds. map (\<lambda>(q, d). q \<or> d) (zip om ds)) dom_mask;
           mask' = map (\<lambda>(ks, ns). map (\<lambda>(k, n). k \<or> n) (zip ks ns)) (zip (mask m) new_mask)
       in Inr \<lparr>base = (base m)\<lparr>rows :=
                   map (\<lambda>(r, ks). map (\<lambda>(v, k, d). fdiv v (if k then Fin 1 else d)) (zip r (zip ks od)))
                     (zip (rows (base m)) mask')\<rparr>,
                mask = mask'\<rparr>))"

definition filled :: "masked_array \<Rightarrow> fval \<Rightarrow> ndarray" where
  "filled m fill =
     (base m)\<lparr>rows := map (\<lambda>(r, ks). filled_list r ks fill) (zip (rows (base m)) (mask m))\<rparr>"

definition times :: "ndarray \<Rightarrow> fval \<Rightarrow> ndarray" where
  "times a s = a\<lparr>rows := map (map (\<lambda>v. fmul v s)) (rows a)\<rparr>"

text \<open>
  The floating-point error handling of numpy: one mode for each of the four kinds of
  error. \<^verbatim>\<open>np.seterr\<close> installs new modes and returns the old ones.
\<close>

datatype errmode = Ignore | Warn | Raise | Call | Print | Log

record errstate =
  divide :: errmode
  over :: errmode
  under :: errmode
  invalid :: errmode

definition seterr_all :: "errmode \<Rightarrow> errstate \<Rightarrow> errstate \<times> errstate" where
  "seterr_all m st = (st, \<lparr>divide = m, over = m, under = m, invalid = m\<rparr>)"

definition seterr :: "errstate \<Rightarrow> errstate \<Rightarrow> errstate \<times> errstate" where
  "seterr new st = (st, new)"

text \<open>
  \<^verbatim>\<open>normalize_by_columns\<close>, lines 145-167. The routine is split in two at line 152:
  \<open>derive_or_keep\<close> is the \<^verbatim>\<open>if\<close> of lines 146-150, \<open>rescale\<close> is lines 153-162. The result
  is the error state afterwards and either the exception or the rewritten
  \<^verbatim>\<open>full_stack\<close> with the returned pair. There is no \<^verbatim>\<open>try\<close> in the routine: an
  exception leaves it before line 165.
\<close>

definition derive_or_keep ::
  "ndarray \<Rightarrow> fval list option \<Rightarrow> fval list option \<Rightarrow> exn + masked_vector \<times> masked_vector" where
  "derive_or_keep full_stack mins maxs =
     (if mins = None \<or> maxs = None then
        (let full_stack_m = masked_invalid full_stack in
         raise_or (ma_max full_stack_m) (\<lambda>maxs'.
         raise_or (ma_min full_stack_m) (\<lambda>mins'. Inr (mins', maxs'))))
      else Inr (plain (the mins), plain (the maxs)))"

definition rescale ::
  "ndarray \<Rightarrow> masked_vector \<Rightarrow> masked_vector \<Rightarrow> exn + ndarray" where
  "rescale full_stack mins maxs =
     raise_or (clip full_stack (vdata mins) (vdata maxs)) (\<lambda>full_stack.
     raise_or (ma_isub (masked_invalid full_stack) mins) (\<lambda>full_stack_m.
     raise_or (ma_sub maxs mins) (\<lambda>range.
     raise_or (ma_idiv full_stack_m range) (\<lambda>full_stack_m.
       Inr (times (filled full_stack_m (Fin 0)) (Fin 100))))))"

definition normalize_by_columns ::
  "errstate \<Rightarrow> ndarray \<Rightarrow> fval list option \<Rightarrow> fval list option \<Rightarrow>
     errstate \<times> (exn + ndarray \<times> masked_vector \<times> masked_vector)" where
  "normalize_by_columns st full_stack mins maxs =
     (let (oldsettings, st) = seterr_all Ignore st in
      case raise_or (derive_or_keep full_stack mins maxs) (\<lambda>(mins, maxs).
           raise_or (rescale full_stack mins maxs) (\<lambda>full_stack. Inr (full_stack, mins, maxs))) of
        Inl e \<Rightarrow> (st, Inl e)
      | Inr r \<Rightarrow> (snd (seterr oldsettings st), Inr r))"

section \<open>Notions used in the statements about the normalization routine\<close>

text \<open>
  An array value is well shaped when every row has \<open>ncols\<close> entries. The routine is
  given an accepted input when the array is well shaped and either both bounds are
  supplied with one entry for each column, or a bound is missing and the array has a row.
\<close>

definition well_shaped :: "ndarray \<Rightarrow> bool" where
  "well_shaped a = list_all (\<lambda>r. length r = ncols a) (rows a)"

definition accepted :: "ndarray \<Rightarrow> fval list option \<Rightarrow> fval list option \<Rightarrow> bool" where
  "accepted a mins maxs =
     (well_shaped a \<and>
      (if mins = None \<or> maxs = None then rows a \<noteq> []
       else length (the mins) = ncols a \<and> length (the maxs) = ncols a))"

text \<open>
  What the steps of \<open>rescale\<close> do to one entry \<open>v\<close> of a column whose bounds are \<open>lo\<close> and
  \<open>hi\<close> with masks \<open>klo\<close> and \<open>khi\<close> (\<open>rescale_entry\<close> below proves that \<open>rescale\<close> computes this
  at every entry), and the division step alone.
\<close>

definition normalized :: "fval \<Rightarrow> fval \<Rightarrow> bool \<Rightarrow> fval \<Rightarrow> bool \<Rightarrow> fval" where
  "normalized v lo klo hi khi =
     (let w = clip1 v lo hi;
          k1 = (\<not> isfinite w \<or> klo);
          a = fsub w (if k1 then Fin 0 else lo);
          r = (if khi \<or> klo then hi else fsub hi lo);
          k2 = (k1 \<or> ((khi \<or> klo) \<or> domain_safe_divide a r));
          q = fdiv a (if k2 then Fin 1 else r)
      in fmul (if k2 then Fin 0 else q) (Fin 100))"

definition scaled :: "fval \<Rightarrow> fval \<Rightarrow> fval" where
  "scaled a r = fmul (if domain_safe_divide a r then Fin 0 else fdiv a r) (Fin 100)"

text \<open>
  The finite entries of a column, the unit roundoff and half the smallest subnormal.
\<close>

fun fin_vals :: "fval list \<Rightarrow> rat list" where
  "fin_vals [] = []"
| "fin_vals (Fin x # vs) = x # fin_vals vs"
| "fin_vals (v # vs) = fin_vals vs"

definition eps :: rat where
  "eps = 2 powi (- 53)"

definition eta :: rat where
  "eta = 2 powi (- 1075)"

text \<open>
  Concrete inputs: the error state that \<^verbatim>\<open>initialize_module\<close> installs
  (\<^verbatim>\<open>np.seterr(all='raise')\<close>, line 77) and the one the routine installs; a call with
  bounds of length 2 for an array of 3 columns; the spec's examples.
\<close>

definition all_raise :: errstate where
  "all_raise = \<lparr>divide = Raise, over = Raise, under = Raise, invalid = Raise\<rparr>"

definition all_ignore :: errstate where
  "all_ignore = \<lparr>divide = Ignore, over = Ignore, under = Ignore, invalid = Ignore\<rparr>"

definition short_bounds_call :: "errstate \<times> (exn + ndarray \<times> masked_vector \<times> masked_vector)" where
  "short_bounds_call =
     normalize_by_columns all_raise \<lparr>ncols = 3, rows = [[Fin 1, Fin 2, Fin 3]]\<rparr>
       (Some [Fin 0, Fin 0]) (Some [Fin 1, Fin 1])"

definition nan_and_flat :: ndarray where
  "nan_and_flat = \<lparr>ncols = 2, rows = [[NaN, Fin 7], [NaN, Fin 7], [NaN, Fin 7]]\<rparr>"

definition five_values :: ndarray where
  "five_values = \<lparr>ncols = 1, rows = [[Fin 0], [Fin 5], [Fin 10], [Fin 15], [Fin (- 5)]]\<rparr>"

definition one_fifty :: ndarray where
  "one_fifty = \<lparr>ncols = 1, rows = [[Fin 50]]\<rparr>"

definition partly_invalid :: ndarray where
  "partly_invalid = \<lparr>ncols = 2, rows = [[Fin 1, NaN], [Fin 3, PInf]]\<rparr>"

section \<open>Properties of the tiling sampler\<close>

lemma col_loop_geometry:
  assumes "col_loop f s acc = Some r"
  shows "geometry s = g \<and> (\<forall>y\<in>set acc. geometry (snd y) = g) \<longrightarrow>
         geometry (fst r) = g \<and> (\<forall>y\<in>set (snd r). geometry (snd y) = g)"
proof (rule col_loop.raw_induct
    [where P = "\<lambda>f s acc r. geometry s = g \<and> (\<forall>y\<in>set acc. geometry (snd y) = g) \<longrightarrow>
         geometry (fst r) = g \<and> (\<forall>y\<in>set (snd r). geometry (snd y) = g)", OF _ assms])
  fix cl f s acc r
  assume ih: "\<And>f s acc r. cl f s acc = Some r \<Longrightarrow>
         geometry s = g \<and> (\<forall>y\<in>set acc. geometry (snd y) = g) \<longrightarrow>
         geometry (fst r) = g \<and> (\<forall>y\<in>set (snd r). geometry (snd y) = g)"
    and step: "(if current_x s + f_width f \<le> max_x f
      then cl f
             (s\<lparr>current_x := current_x s + f_width f, current_col := current_col s + 1\<rparr>)
             (acc @ [(bb f s, s)])
      else Some (s, acc)) = Some r"
  show "geometry s = g \<and> (\<forall>y\<in>set acc. geometry (snd y) = g) \<longrightarrow>
         geometry (fst r) = g \<and> (\<forall>y\<in>set (snd r). geometry (snd y) = g)"
  proof (cases "current_x s + f_width f \<le> max_x f")
    case False
    with step show ?thesis by auto
  next
    case True
    with step have "cl f
             (s\<lparr>current_x := current_x s + f_width f, current_col := current_col s + 1\<rparr>)
             (acc @ [(bb f s, s)]) = Some r" by simp
    from ih [OF this] show ?thesis by (simp add: geometry_def)
  qed
qed

lemma row_loop_geometry:
  assumes "row_loop f s acc = Some r"
  shows "geometry s = g \<and> (\<forall>y\<in>set acc. geometry (snd y) = g) \<longrightarrow>
         geometry (fst r) = g \<and> (\<forall>y\<in>set (snd r). geometry (snd y) = g)"
proof (rule row_loop.raw_induct
    [where P = "\<lambda>f s acc r. geometry s = g \<and> (\<forall>y\<in>set acc. geometry (snd y) = g) \<longrightarrow>
         geometry (fst r) = g \<and> (\<forall>y\<in>set (snd r). geometry (snd y) = g)", OF _ assms])
  fix rl f s acc r
  assume ih: "\<And>f s acc r. rl f s acc = Some r \<Longrightarrow>
         geometry s = g \<and> (\<forall>y\<in>set acc. geometry (snd y) = g) \<longrightarrow>
         geometry (fst r) = g \<and> (\<forall>y\<in>set (snd r). geometry (snd y) = g)"
    and step: "(if current_y s + f_height f \<le> max_y f
      then col_loop f (s\<lparr>current_col := 0, current_x := 0\<rparr>) acc \<bind>
             (\<lambda>(s', acc').
                rl f
                  (s'\<lparr>current_y := current_y s' + f_height f,
                      current_row := current_row s' + 1\<rparr>)
                  acc')
      else Some (s, acc)) = Some r"
  show "geometry s = g \<and> (\<forall>y\<in>set acc. geometry (snd y) = g) \<longrightarrow>
         geometry (fst r) = g \<and> (\<forall>y\<in>set (snd r). geometry (snd y) = g)"
  proof (cases "current_y s + f_height f \<le> max_y f")
    case False
    with step show ?thesis by auto
  next
    case True
    with step obtain s1 acc1 where
      c: "col_loop f (s\<lparr>current_col := 0, current_x := 0\<rparr>) acc = Some (s1, acc1)" and
      r: "rl f (s1\<lparr>current_y := current_y s1 + f_height f,
                         current_row := current_row s1 + 1\<rparr>) acc1 = Some r"
      by (auto split: Option.bind_splits)
    show ?thesis
    proof
      assume a: "geometry s = g \<and> (\<forall>y\<in>set acc. geometry (snd y) = g)"
      then have "geometry (s\<lparr>current_col := 0, current_x := 0\<rparr>) = g"
        by (simp add: geometry_def)
      with col_loop_geometry [OF c, of g] a
      have b: "geometry s1 = g \<and> (\<forall>y\<in>set acc1. geometry (snd y) = g)" by simp
      then have "geometry (s1\<lparr>current_y := current_y s1 + f_height f,
                         current_row := current_row s1 + 1\<rparr>) = g"
        by (simp add: geometry_def)
      with ih [OF r] b show "geometry (fst r) = g \<and> (\<forall>y\<in>set (snd r). geometry (snd y) = g)"
        by simp
    qed
  qed
qed

lemma sample_geometry:
  assumes "sample s = Some (s', ys)"
  shows "geometry s' = geometry s \<and> (\<forall>y\<in>set ys. geometry (snd y) = geometry s)"
proof -
  have "geometry (s\<lparr>current_row := 0, current_y := 0\<rparr>) = geometry s"
    by (simp add: geometry_def)
  with row_loop_geometry [OF assms [unfolded sample_def], of "geometry s"]
  show ?thesis by simp
qed

text \<open>
  With positive tile extents both loops end, and a pass yields
  \<open>\<lfloor>height / tile_height\<rfloor>\<close> rows of \<open>\<lfloor>width / tile_width\<rfloor>\<close> tiles, row by row. In fixed
  mode these two numbers are \<open>tiles_y\<close> and \<open>tiles_x\<close>, so a pass there yields \<open>samples\<close>
  tiles in row-major order.
\<close>

lemma fit_0:
  assumes "0 < step" and "\<not> start + step \<le> limit"
  shows "fit limit start step = 0"
proof -
  from assms have "limit - start < step" by simp
  then have "(limit - start) div step \<le> 0"
    using assms(1) by (metis div_pos_pos_trivial div_nonpos_pos_le0 linorder_le_cases order_refl)
  then show ?thesis by (simp add: fit_def)
qed

lemma fit_Suc:
  assumes "0 < step" and "start + step \<le> limit"
  shows "fit limit start step = Suc (fit limit (start + step) step)"
proof -
  have "limit - start = (limit - (start + step)) + step" by simp
  then have "(limit - start) div step = (limit - (start + step)) div step + 1"
    using assms(1) by (metis div_add_self2 less_irrefl)
  moreover have "0 \<le> (limit - (start + step)) div step"
    using assms by (simp add: pos_imp_zdiv_nonneg_iff)
  ultimately show ?thesis by (simp add: fit_def nat_add_distrib)
qed

lemma col_loop_run:
  assumes w: "0 < f_width f"
  shows "n = fit (max_x f) (current_x s) (f_width f) \<Longrightarrow>
         col_loop f s acc = Some (at_col s f n, acc @ map (\<lambda>k. (bb f (at_col s f k), at_col s f k)) [0..<n])"
proof (induction n arbitrary: s acc)
  case 0
  have "\<not> current_x s + f_width f \<le> max_x f"
  proof
    assume "current_x s + f_width f \<le> max_x f"
    from fit_Suc [OF w this] 0 show False by simp
  qed
  then show ?case by (subst col_loop.simps) (simp add: at_col_def)
next
  case (Suc n)
  have le: "current_x s + f_width f \<le> max_x f"
  proof (rule ccontr)
    assume "\<not> current_x s + f_width f \<le> max_x f"
    from fit_0 [OF w this] Suc.prems show False by simp
  qed
  let ?s = "s\<lparr>current_x := current_x s + f_width f, current_col := current_col s + 1\<rparr>"
  from fit_Suc [OF w le] Suc.prems have "n = fit (max_x f) (current_x ?s) (f_width f)" by simp
  from Suc.IH [OF this, of "acc @ [(bb f s, s)]"]
  have r: "col_loop f ?s (acc @ [(bb f s, s)]) =
      Some (at_col ?s f n, (acc @ [(bb f s, s)]) @ map (\<lambda>k. (bb f (at_col ?s f k), at_col ?s f k)) [0..<n])" .
  have shift: "at_col ?s f k = at_col s f (Suc k)" for k
    by (simp add: at_col_def algebra_simps)
  have zero: "at_col s f 0 = s" by (simp add: at_col_def)
  have "col_loop f s acc = col_loop f ?s (acc @ [(bb f s, s)])"
    using le by (subst col_loop.simps) simp
  also note r
  finally show ?case
    by (simp add: shift zero map_upt_Suc del: upt_Suc)
qed

lemma row_loop_run:
  assumes w: "0 < f_width f" and h: "0 < f_height f"
  shows "m = fit (max_y f) (current_y s) (f_height f) \<Longrightarrow>
         \<exists>s'. row_loop f s acc = Some (s', acc @ grid s f m (fit (max_x f) 0 (f_width f)))"
proof (induction m arbitrary: s acc)
  case 0
  have "\<not> current_y s + f_height f \<le> max_y f"
  proof
    assume "current_y s + f_height f \<le> max_y f"
    from fit_Suc [OF h this] 0 show False by simp
  qed
  then show ?case by (subst row_loop.simps) (simp add: grid_def)
next
  case (Suc m)
  let ?n = "fit (max_x f) 0 (f_width f)"
  have le: "current_y s + f_height f \<le> max_y f"
  proof (rule ccontr)
    assume "\<not> current_y s + f_height f \<le> max_y f"
    from fit_0 [OF h this] Suc.prems show False by simp
  qed
  let ?s0 = "s\<lparr>current_col := 0, current_x := 0\<rparr>"
  let ?row0 = "map (\<lambda>k. (bb f (at_col ?s0 f k), at_col ?s0 f k)) [0..<?n]"
  have c: "col_loop f ?s0 acc = Some (at_col ?s0 f ?n, acc @ ?row0)"
    by (rule col_loop_run [OF w]) simp
  let ?s1 = "(at_col ?s0 f ?n)\<lparr>current_y := current_y (at_col ?s0 f ?n) + f_height f,
                                  current_row := current_row (at_col ?s0 f ?n) + 1\<rparr>"
  have y1: "current_y ?s1 = current_y s + f_height f" by (simp add: at_col_def)
  from fit_Suc [OF h le] Suc.prems have "m = fit (max_y f) (current_y ?s1) (f_height f)"
    by (simp add: y1)
  from Suc.IH [OF this, of "acc @ ?row0"] obtain s' where
    r: "row_loop f ?s1 (acc @ ?row0) = Some (s', (acc @ ?row0) @ grid ?s1 f m ?n)" by blast
  have first: "at_col ?s0 f k = cell s f 0 k" for k
    by (simp add: at_col_def cell_def)
  have later: "cell ?s1 f r k = cell s f (Suc r) k" for r k
    by (simp add: at_col_def cell_def algebra_simps)
  have g: "?row0 @ grid ?s1 f m ?n = grid s f (Suc m) ?n"
    unfolding grid_def later unfolding first by (simp add: map_upt_Suc del: upt_Suc)
  have "row_loop f s acc = row_loop f ?s1 (acc @ ?row0)"
    using le c by (subst row_loop.simps) simp
  with r g show ?case by (metis append.assoc)
qed

lemma length_grid: "length (grid s f m n) = m * n"
  by (induction m) (simp_all add: grid_def)

lemma grid_nth:
  assumes "k < m * n"
  shows "grid s f m n ! k = (bb f (cell s f (k div n) (k mod n)), cell s f (k div n) (k mod n))"
  using assms
proof (induction m)
  case 0
  then show ?case by simp
next
  case (Suc m)
  have app: "grid s f (Suc m) n = grid s f m n @ map (\<lambda>k. (bb f (cell s f m k), cell s f m k)) [0..<n]"
    by (simp add: grid_def)
  show ?case
  proof (cases "k < m * n")
    case True
    with Suc.IH show ?thesis by (simp add: app nth_append length_grid)
  next
    case False
    then have ge: "m * n \<le> k" by simp
    from Suc.prems have lt: "k - m * n < n" using ge by simp
    from Suc.prems have n0: "0 < n" by (cases n) auto
    have k: "k = m * n + (k - m * n)" using ge by simp
    have d: "k div n = m"
      using lt n0 by (subst k) (simp add: div_mult_self3)
    have md: "k mod n = k - m * n"
      using lt by (subst k) (simp add: mod_mult_self3)
    show ?thesis using False lt by (simp add: app nth_append length_grid d md)
  qed
qed

lemma sample_run:
  assumes "0 < tile_width s" and "0 < tile_height s"
  shows "\<exists>s'. sample s = Some (s', grid (s\<lparr>current_row := 0, current_y := 0\<rparr>) (enter s)
           (nat (int (height (image s)) div tile_height s))
           (nat (int (width (image s)) div tile_width s)))"
proof -
  have w: "0 < f_width (enter s)" and h: "0 < f_height (enter s)"
    using assms by (simp_all add: enter_def)
  have m: "nat (int (height (image s)) div tile_height s) =
      fit (max_y (enter s)) (current_y (s\<lparr>current_row := 0, current_y := 0\<rparr>)) (f_height (enter s))"
    by (simp add: fit_def enter_def)
  have n: "nat (int (width (image s)) div tile_width s) = fit (max_x (enter s)) 0 (f_width (enter s))"
    by (simp add: fit_def enter_def)
  from row_loop_run [OF w h m, of "[]"] show ?thesis
    unfolding sample_def n by simp
qed

lemma fixed_mode_pass:
  assumes x: "0 < x" and y: "0 < y"
    and i: "SampleImageTiles_init e image_in x y True = Inr s"
  shows "\<exists>s' ys. sample s = Some (s', ys) \<and> int (length ys) = samples s \<and>
           (\<forall>k<length ys.
              current_row (snd (ys ! k)) = int k div tiles_x s \<and>
              current_col (snd (ys ! k)) = int k mod tiles_x s \<and>
              current_x (snd (ys ! k)) = current_col (snd (ys ! k)) * tile_width s \<and>
              current_y (snd (ys ! k)) = current_row (snd (ys ! k)) * tile_height s \<and>
              fst (ys ! k) =
                (current_x (snd (ys ! k)), current_y (snd (ys ! k)),
                 current_x (snd (ys ! k)) + tile_width s - 1,
                 current_y (snd (ys ! k)) + tile_height s - 1))"
proof -
  from i obtain img where s: "tile_width s = x" "tile_height s = y" "image s = img"
      "tiles_x s = int (width img) div x" "tiles_y s = int (height img) div y"
      "samples s = tiles_x s * tiles_y s"
    using x y by (auto simp: SampleImageTiles_init_def split: sum.splits)
  let ?m = "nat (int (height img) div y)" and ?n = "nat (int (width img) div x)"
  let ?g = "grid (s\<lparr>current_row := 0, current_y := 0\<rparr>) (enter s) ?m ?n"
  from sample_run [of s] x y s obtain s' where r: "sample s = Some (s', ?g)" by auto
  have nx: "int ?n = tiles_x s" and ny: "int ?m = tiles_y s"
    using x y by (simp_all add: s pos_imp_zdiv_nonneg_iff)
  have len: "int (length ?g) = samples s"
    by (simp add: length_grid s(6) nx [symmetric] ny [symmetric] mult.commute)
  have "\<forall>k<length ?g.
              current_row (snd (?g ! k)) = int k div tiles_x s \<and>
              current_col (snd (?g ! k)) = int k mod tiles_x s \<and>
              current_x (snd (?g ! k)) = current_col (snd (?g ! k)) * tile_width s \<and>
              current_y (snd (?g ! k)) = current_row (snd (?g ! k)) * tile_height s \<and>
              fst (?g ! k) =
                (current_x (snd (?g ! k)), current_y (snd (?g ! k)),
                 current_x (snd (?g ! k)) + tile_width s - 1,
                 current_y (snd (?g ! k)) + tile_height s - 1)"
  proof (intro allI impI)
    fix k assume "k < length ?g"
    then have k: "k < ?m * ?n" by (simp add: length_grid)
    show "current_row (snd (?g ! k)) = int k div tiles_x s \<and>
              current_col (snd (?g ! k)) = int k mod tiles_x s \<and>
              current_x (snd (?g ! k)) = current_col (snd (?g ! k)) * tile_width s \<and>
              current_y (snd (?g ! k)) = current_row (snd (?g ! k)) * tile_height s \<and>
              fst (?g ! k) =
                (current_x (snd (?g ! k)), current_y (snd (?g ! k)),
                 current_x (snd (?g ! k)) + tile_width s - 1,
                 current_y (snd (?g ! k)) + tile_height s - 1)"
      unfolding grid_nth [OF k] nx [symmetric]
      by (simp add: cell_def bb_def enter_def zdiv_int zmod_int)
  qed
  with r len show ?thesis by blast
qed

text \<open>
  No step of a generator writes to the image or to a geometry attribute; so they are the
  same after any number of steps of a pass, at every item yielded, and after anything a
  caller does with the instance.
\<close>

lemma advance_geometry: "geometry (snd (advance g s)) = geometry s"
  by (cases g) (simp_all add: geometry_def)

lemma act_geometry: "geometry (fst (act a c)) = geometry (fst c)"
proof (cases c)
  case (Pair s gs)
  show ?thesis
  proof (cases a)
    case Sample
    with Pair show ?thesis by simp
  next
    case (Advance i)
    with Pair advance_geometry [of "gs ! i" s] show ?thesis
      by (auto split: prod.splits)
  qed
qed

lemma foldl_act_geometry: "geometry (fst (foldl (\<lambda>c a. act a c) c as)) = geometry (fst c)"
  by (induction as arbitrary: c) (simp_all add: act_geometry)

lemma after_geometry: "geometry (fst (after s as)) = geometry s"
  by (simp add: after_def foldl_act_geometry)

lemma tick_geometry:
  assumes "geometry (fst (snd c)) = g" and "\<forall>y\<in>set (snd (snd c)). geometry (snd y) = g"
  shows "geometry (fst (snd (tick c))) = g \<and> (\<forall>y\<in>set (snd (snd (tick c))). geometry (snd y) = g)"
proof (cases c)
  case (fields p s ys)
  obtain p' s' where a: "advance p s = (p', s')" by (cases "advance p s")
  with advance_geometry [of p s] assms fields have "geometry s' = g" by simp
  with a assms fields show ?thesis by (cases p') auto
qed

lemma ticks_geometry:
  assumes "geometry (fst (snd c)) = g" and "\<forall>y\<in>set (snd (snd c)). geometry (snd y) = g"
  shows "geometry (fst (snd ((tick ^^ n) c))) = g \<and>
         (\<forall>y\<in>set (snd (snd ((tick ^^ n) c))). geometry (snd y) = g)"
proof (induction n)
  case 0
  from assms show ?case by simp
next
  case (Suc n)
  from tick_geometry [of "(tick ^^ n) c" g] Suc show ?case by simp
qed

lemma run_geometry:
  "geometry (fst (snd (run n s))) = geometry s \<and>
   (\<forall>y\<in>set (snd (snd (run n s))). geometry (snd y) = geometry s)"
  unfolding run_def by (rule ticks_geometry) simp_all

lemma ticks_add: "(tick ^^ (m + n)) c = (tick ^^ n) ((tick ^^ m) c)"
  by (subst add.commute) (simp add: funpow_add)

lemma col_loop_ticks:
  assumes "col_loop f s acc = Some r"
  shows "\<exists>n. (tick ^^ n) (Inner f, s, acc) =
           (Outer f, (fst r)\<lparr>current_y := current_y (fst r) + f_height f,
                              current_row := current_row (fst r) + 1\<rparr>, snd r)"
proof (rule col_loop.raw_induct
    [where P = "\<lambda>f s acc r. \<exists>n. (tick ^^ n) (Inner f, s, acc) =
           (Outer f, (fst r)\<lparr>current_y := current_y (fst r) + f_height f,
                              current_row := current_row (fst r) + 1\<rparr>, snd r)", OF _ assms])
  fix cl f s acc r
  assume ih: "\<And>f s acc r. cl f s acc = Some r \<Longrightarrow> \<exists>n. (tick ^^ n) (Inner f, s, acc) =
           (Outer f, (fst r)\<lparr>current_y := current_y (fst r) + f_height f,
                              current_row := current_row (fst r) + 1\<rparr>, snd r)"
    and body: "(if current_x s + f_width f \<le> max_x f
      then cl f
             (s\<lparr>current_x := current_x s + f_width f, current_col := current_col s + 1\<rparr>)
             (acc @ [(bb f s, s)])
      else Some (s, acc)) = Some r"
  show "\<exists>n. (tick ^^ n) (Inner f, s, acc) =
           (Outer f, (fst r)\<lparr>current_y := current_y (fst r) + f_height f,
                              current_row := current_row (fst r) + 1\<rparr>, snd r)"
  proof (cases "current_x s + f_width f \<le> max_x f")
    case False
    with body have r: "r = (s, acc)" by simp
    have "(tick ^^ 1) (Inner f, s, acc) =
           (Outer f, s\<lparr>current_y := current_y s + f_height f,
                              current_row := current_row s + 1\<rparr>, acc)"
      using False by simp
    with r show ?thesis by (metis fst_conv snd_conv)
  next
    case True
    let ?s = "s\<lparr>current_x := current_x s + f_width f, current_col := current_col s + 1\<rparr>"
    from True body have "cl f ?s (acc @ [(bb f s, s)]) = Some r" by simp
    from ih [OF this] obtain n where
      n: "(tick ^^ n) (Inner f, ?s, acc @ [(bb f s, s)]) =
           (Outer f, (fst r)\<lparr>current_y := current_y (fst r) + f_height f,
                              current_row := current_row (fst r) + 1\<rparr>, snd r)" by blast
    have two: "(tick ^^ 2) (Inner f, s, acc) = (Inner f, ?s, acc @ [(bb f s, s)])"
      using True by (simp add: numeral_2_eq_2)
    from ticks_add [of 2 n "(Inner f, s, acc)"] two n show ?thesis by metis
  qed
qed

lemma row_loop_ticks:
  assumes "row_loop f s acc = Some r"
  shows "\<exists>n. (tick ^^ n) (Outer f, s, acc) = (Exhausted, fst r, snd r)"
proof (rule row_loop.raw_induct
    [where P = "\<lambda>f s acc r. \<exists>n. (tick ^^ n) (Outer f, s, acc) = (Exhausted, fst r, snd r)",
     OF _ assms])
  fix rl f s acc r
  assume ih: "\<And>f s acc r. rl f s acc = Some r \<Longrightarrow>
         \<exists>n. (tick ^^ n) (Outer f, s, acc) = (Exhausted, fst r, snd r)"
    and body: "(if current_y s + f_height f \<le> max_y f
      then col_loop f (s\<lparr>current_col := 0, current_x := 0\<rparr>) acc \<bind>
             (\<lambda>(s', acc').
                rl f
                  (s'\<lparr>current_y := current_y s' + f_height f,
                      current_row := current_row s' + 1\<rparr>)
                  acc')
      else Some (s, acc)) = Some r"
  show "\<exists>n. (tick ^^ n) (Outer f, s, acc) = (Exhausted, fst r, snd r)"
  proof (cases "current_y s + f_height f \<le> max_y f")
    case False
    with body have r: "r = (s, acc)" by simp
    have "(tick ^^ 1) (Outer f, s, acc) = (Exhausted, s, acc)"
      using False by simp
    with r show ?thesis by (metis fst_conv snd_conv)
  next
    case True
    with body obtain s1 acc1 where
      c: "col_loop f (s\<lparr>current_col := 0, current_x := 0\<rparr>) acc = Some (s1, acc1)" and
      r: "rl f (s1\<lparr>current_y := current_y s1 + f_height f,
                         current_row := current_row s1 + 1\<rparr>) acc1 = Some r"
      by (auto split: Option.bind_splits)
    let ?s1 = "s1\<lparr>current_y := current_y s1 + f_height f, current_row := current_row s1 + 1\<rparr>"
    have one: "(tick ^^ 1) (Outer f, s, acc) = (Inner f, s\<lparr>current_col := 0, current_x := 0\<rparr>, acc)"
      using True by simp
    from col_loop_ticks [OF c] obtain m where
      m: "(tick ^^ m) (Inner f, s\<lparr>current_col := 0, current_x := 0\<rparr>, acc) = (Outer f, ?s1, acc1)"
      by auto
    from ih [OF r] obtain n where
      n: "(tick ^^ n) (Outer f, ?s1, acc1) = (Exhausted, fst r, snd r)" by blast
    from ticks_add [of 1 m "(Outer f, s, acc)"] one m
    have "(tick ^^ (1 + m)) (Outer f, s, acc) = (Outer f, ?s1, acc1)" by metis
    with ticks_add [of "1 + m" n "(Outer f, s, acc)"] n show ?thesis by metis
  qed
qed

lemma sample_run_ends:
  assumes "sample s = Some (s', ys)"
  shows "\<exists>n. run n s = (Exhausted, s', ys)"
proof -
  from row_loop_ticks [OF assms [unfolded sample_def]] obtain n where
    n: "(tick ^^ n) (Outer (enter s), s\<lparr>current_row := 0, current_y := 0\<rparr>, []) = (Exhausted, s', ys)"
    by auto
  have "(tick ^^ 1) (Created, s, []) = (Outer (enter s), s\<lparr>current_row := 0, current_y := 0\<rparr>, [])"
    by simp
  with ticks_add [of 1 n "(Created, s, [])"] n have "run (1 + n) s = (Exhausted, s', ys)"
    unfolding run_def by metis
  then show ?thesis ..
qed

text \<open>
  The step-wise pass and the loops agree: \<open>sample\<close> returns exactly when the step-wise
  pass arrives at the return, with the same final instance and the same items. The pass
  over the 3 by 3 image asked for 5 by 5 tiles never arrives there.
\<close>

lemma ticks_exhausted: "(tick ^^ n) (Exhausted, s, ys) = (Exhausted, s, ys)"
  by (induction n) simp_all

lemma ticks_Suc: "(tick ^^ Suc n) c = (tick ^^ n) (tick c)"
  by (simp add: funpow_swap1)

lemma ticks_col_loop:
  "(tick ^^ n) (Inner f, s, acc) = (Exhausted, s', ys) \<Longrightarrow>
   \<exists>s1 acc1 m. col_loop f s acc = Some (s1, acc1) \<and> m < n \<and>
     (tick ^^ m) (Outer f, s1\<lparr>current_y := current_y s1 + f_height f,
                              current_row := current_row s1 + 1\<rparr>, acc1) = (Exhausted, s', ys)"
proof (induction n arbitrary: s acc rule: less_induct)
  case (less n)
  from less.prems obtain k where n: "n = Suc k" by (cases n) auto
  show ?case
  proof (cases "current_x s + f_width f \<le> max_x f")
    case False
    then have "tick (Inner f, s, acc) =
        (Outer f, s\<lparr>current_y := current_y s + f_height f, current_row := current_row s + 1\<rparr>, acc)"
      by simp
    with less.prems have "(tick ^^ k) (Outer f, s\<lparr>current_y := current_y s + f_height f,
        current_row := current_row s + 1\<rparr>, acc) = (Exhausted, s', ys)"
      unfolding n ticks_Suc by simp
    moreover have "col_loop f s acc = Some (s, acc)"
      using False by (subst col_loop.simps) simp
    ultimately show ?thesis using n by blast
  next
    case True
    let ?s = "s\<lparr>current_x := current_x s + f_width f, current_col := current_col s + 1\<rparr>"
    from True have t1: "tick (Inner f, s, acc) = (Suspended f, s, acc @ [(bb f s, s)])" by simp
    with less.prems have p1: "(tick ^^ k) (Suspended f, s, acc @ [(bb f s, s)]) = (Exhausted, s', ys)"
      unfolding n ticks_Suc by simp
    then obtain j where k: "k = Suc j" by (cases k) auto
    have t2: "tick (Suspended f, s, acc @ [(bb f s, s)]) = (Inner f, ?s, acc @ [(bb f s, s)])"
      by simp
    from p1 have "(tick ^^ j) (Inner f, ?s, acc @ [(bb f s, s)]) = (Exhausted, s', ys)"
      unfolding k ticks_Suc t2 .
    from less.IH [OF _ this] n k obtain s1 acc1 m where
      c: "col_loop f ?s (acc @ [(bb f s, s)]) = Some (s1, acc1)" and m: "m < j" and
      r: "(tick ^^ m) (Outer f, s1\<lparr>current_y := current_y s1 + f_height f,
                              current_row := current_row s1 + 1\<rparr>, acc1) = (Exhausted, s', ys)"
      by auto
    have "col_loop f s acc = Some (s1, acc1)"
      using True c by (subst col_loop.simps) simp
    with m r n k show ?thesis by (intro exI [of _ s1] exI [of _ acc1] exI [of _ m]) simp
  qed
qed

lemma ticks_row_loop:
  "(tick ^^ n) (Outer f, s, acc) = (Exhausted, s', ys) \<Longrightarrow> row_loop f s acc = Some (s', ys)"
proof (induction n arbitrary: s acc rule: less_induct)
  case (less n)
  from less.prems obtain k where n: "n = Suc k" by (cases n) auto
  show ?case
  proof (cases "current_y s + f_height f \<le> max_y f")
    case False
    then have "tick (Outer f, s, acc) = (Exhausted, s, acc)" by simp
    with less.prems have "s' = s" "ys = acc"
      unfolding n ticks_Suc by (simp_all add: ticks_exhausted)
    with False show ?thesis by (subst row_loop.simps) simp
  next
    case True
    let ?s0 = "s\<lparr>current_col := 0, current_x := 0\<rparr>"
    from True have "tick (Outer f, s, acc) = (Inner f, ?s0, acc)" by simp
    with less.prems have "(tick ^^ k) (Inner f, ?s0, acc) = (Exhausted, s', ys)"
      unfolding n ticks_Suc by simp
    from ticks_col_loop [OF this] obtain s1 acc1 m where
      c: "col_loop f ?s0 acc = Some (s1, acc1)" and m: "m < k" and
      r: "(tick ^^ m) (Outer f, s1\<lparr>current_y := current_y s1 + f_height f,
                              current_row := current_row s1 + 1\<rparr>, acc1) = (Exhausted, s', ys)"
      by blast
    from less.IH [OF _ r] m n
    have "row_loop f (s1\<lparr>current_y := current_y s1 + f_height f,
                              current_row := current_row s1 + 1\<rparr>) acc1 = Some (s', ys)"
      by simp
    with True c show ?thesis by (subst row_loop.simps) simp
  qed
qed

lemma run_ends_sample:
  assumes "run n s = (Exhausted, s', ys)"
  shows "sample s = Some (s', ys)"
proof -
  from assms obtain k where n: "n = Suc k" by (cases n) (auto simp: run_def)
  have "tick (Created, s, []) = (Outer (enter s), s\<lparr>current_row := 0, current_y := 0\<rparr>, [])"
    by simp
  with assms have "(tick ^^ k) (Outer (enter s), s\<lparr>current_row := 0, current_y := 0\<rparr>, []) =
      (Exhausted, s', ys)"
    unfolding run_def n ticks_Suc by simp
  from ticks_row_loop [OF this] show ?thesis by (simp add: sample_def)
qed

lemma sample_iff_run: "sample s = Some (s', ys) \<longleftrightarrow> (\<exists>n. run n s = (Exhausted, s', ys))"
  using sample_run_ends run_ends_sample by blast

lemma stuck_never_exhausted: "fst (run n stuck_25) \<noteq> Exhausted"
proof -
  let ?f = "enter stuck_25"
  have inv: "fst (run n stuck_25) = Created \<and> fst (snd (run n stuck_25)) = stuck_25 \<or>
        (fst (run n stuck_25) \<in> {Outer ?f, Inner ?f, Suspended ?f} \<and>
         current_x (fst (snd (run n stuck_25))) = 0 \<and>
         current_y (fst (snd (run n stuck_25))) = 0)"
  proof (induction n)
    case 0
    show ?case by (simp add: run_def)
  next
    case (Suc n)
    obtain g s ys where c: "run n stuck_25 = (g, s, ys)" by (cases "run n stuck_25")
    have nx: "run (Suc n) stuck_25 = tick (g, s, ys)" using c by (simp add: run_def)
    from Suc c have "g = Created \<and> s = stuck_25 \<or> (g \<in> {Outer ?f, Inner ?f, Suspended ?f} \<and>
         current_x s = 0 \<and> current_y s = 0)" by simp
    then show ?case unfolding nx
      by (auto simp: enter_def stuck_25_def)
  qed
  then show ?thesis by auto
qed

text \<open>
  Claim C5. For positive \<open>x\<close> and \<open>y\<close> and either value of \<open>is_fixed\<close>, a constructed
  sampler has \<open>samples = tiles_x * tiles_y\<close>, \<open>tiles_x * tile_width \<le> image.width\<close> and
  \<open>tiles_y * tile_height \<le> image.height\<close>, and these fields never change afterwards:
  whatever the caller does with the instance (any number of calls of \<open>sample\<close>, their
  generators advanced in any order, to the end or not), the image and the five geometry
  attributes are as the constructor set them and the three relations hold; in a pass,
  also one that never ends, they are so after every number of steps and in the instance
  seen at every yield; and a pass that ends leaves them so.
\<close>

theorem init_invariants:
  assumes "0 < x" and "0 < y"
    and "SampleImageTiles_init e image_in x y is_fixed = Inr s"
  shows "samples s = tiles_x s * tiles_y s \<and>
         tiles_x s * tile_width s \<le> int (width (image s)) \<and>
         tiles_y s * tile_height s \<le> int (height (image s)) \<and>
         (\<forall>as t. t = fst (after s as) \<longrightarrow>
            geometry t = geometry s \<and>
            samples t = tiles_x t * tiles_y t \<and>
            tiles_x t * tile_width t \<le> int (width (image t)) \<and>
            tiles_y t * tile_height t \<le> int (height (image t))) \<and>
         (\<forall>n. geometry (fst (snd (run n s))) = geometry s \<and>
              (\<forall>y\<in>set (snd (snd (run n s))). geometry (snd y) = geometry s)) \<and>
         (\<forall>s' ys. sample s = Some (s', ys) \<longrightarrow>
            geometry s' = geometry s \<and> (\<forall>y\<in>set ys. geometry (snd y) = geometry s))"
proof -
  have div_le: "(a div b) * b \<le> a" if "0 < b" for a b :: int
    using that by (metis mult.commute pos_mod_sign cancel_div_mod_rules(2) add.commute le_add_same_cancel1 mult_div_mod_eq)
  from assms obtain img where
    img: "load_image e image_in = Inr img"
    by (auto simp: SampleImageTiles_init_def split: sum.splits)
  have three: "samples s = tiles_x s * tiles_y s \<and>
         tiles_x s * tile_width s \<le> int (width (image s)) \<and>
         tiles_y s * tile_height s \<le> int (height (image s))"
  proof (cases is_fixed)
    case True
    with assms img show ?thesis
      using div_le [of x "int (width img)"] div_le [of y "int (height img)"]
      by (auto simp: SampleImageTiles_init_def)
  next
    case False
    with assms img show ?thesis
      using div_le [of x "int (width img)"] div_le [of y "int (height img)"]
      by (auto simp: SampleImageTiles_init_def mult.commute)
  qed
  have later: "geometry t = geometry s \<and>
            samples t = tiles_x t * tiles_y t \<and>
            tiles_x t * tile_width t \<le> int (width (image t)) \<and>
            tiles_y t * tile_height t \<le> int (height (image t))"
    if "t = fst (after s as)" for as t
  proof -
    from that after_geometry [of s as] have g: "geometry t = geometry s" by simp
    then have "image t = image s" "tile_width t = tile_width s" "tile_height t = tile_height s"
      "tiles_x t = tiles_x s" "tiles_y t = tiles_y s" "samples t = samples s"
      by (simp_all add: geometry_def)
    with g three show ?thesis by simp
  qed
  from three later run_geometry [of _ s] sample_geometry [of s] show ?thesis by blast
qed

lemma init_over_16:
  "SampleImageTiles_init no_files (Matrix \<lparr>width = 10, height = 10\<rparr>) 4 4 False = Inr over_16"
  by (simp add: SampleImageTiles_init_def load_image_def over_16_def)

text \<open>
  Claim C1 says that one full pass yields exactly \<open>samples = tiles_x * tiles_y\<close> tiles in
  both modes. In count mode the loops of \<open>sample\<close> are bounded by the pixel extents of
  the image and not by \<open>tiles_x\<close> and \<open>tiles_y\<close>: for a 10 by 10 image and
  \<open>x = y = 4\<close> the tile is 2 by 2, it fits 5 times along each axis, and the pass yields
  25 tiles while \<open>samples\<close> is 16.
\<close>

theorem count_mode_yields_more_than_samples:
  "SampleImageTiles_init no_files (Matrix \<lparr>width = 10, height = 10\<rparr>) 4 4 False = Inr over_16 \<and>
   samples over_16 = 16 \<and> tiles_x over_16 * tiles_y over_16 = 16 \<and>
   map_option (\<lambda>(s', ys). length ys) (sample over_16) = Some 25"
proof -
  have "map_option (\<lambda>(s', ys). length ys) (sample over_16) = Some 25"
    by code_simp
  moreover have "samples over_16 = 16 \<and> tiles_x over_16 * tiles_y over_16 = 16"
    by (simp add: over_16_def)
  ultimately show ?thesis using init_over_16 by simp
qed

text \<open>
  Claim C6 says that tile \<open>k\<close> has row \<open>k div tiles_x\<close> and column \<open>k mod tiles_x\<close>. On
  the same 10 by 10 image in count mode, the tile with index 4 is yielded with
  \<open>current_row = 0\<close>, \<open>current_col = 4\<close>, \<open>current_x = 8\<close>, \<open>current_y = 0\<close> and bounding
  box \<open>(8, 0, 9, 1)\<close>, while \<open>4 div tiles_x = 1\<close> and \<open>4 mod tiles_x = 0\<close>.
\<close>

theorem count_mode_fifth_tile_not_row_major:
  "SampleImageTiles_init no_files (Matrix \<lparr>width = 10, height = 10\<rparr>) 4 4 False = Inr over_16 \<and>
   map_option (\<lambda>(s', ys). (fst (ys ! 4), current_row (snd (ys ! 4)), current_col (snd (ys ! 4)),
        current_x (snd (ys ! 4)), current_y (snd (ys ! 4)))) (sample over_16)
     = Some ((8, 0, 9, 1), 0, 4, 8, 0) \<and>
   4 div tiles_x over_16 = 1 \<and> 4 mod tiles_x over_16 = 0"
proof -
  have "map_option (\<lambda>(s', ys). (fst (ys ! 4), current_row (snd (ys ! 4)), current_col (snd (ys ! 4)),
        current_x (snd (ys ! 4)), current_y (snd (ys ! 4)))) (sample over_16)
     = Some ((8, 0, 9, 1), 0, 4, 8, 0)"
    by code_simp
  moreover have "4 div tiles_x over_16 = 1 \<and> 4 mod tiles_x over_16 = 0"
    by (simp add: over_16_def)
  ultimately show ?thesis using init_over_16 by simp
qed

lemma col_loop_stuck:
  assumes "col_loop f s acc = Some r"
  shows "\<not> (f_width f = 0 \<and> current_x s \<le> max_x f)"
proof (rule col_loop.raw_induct
    [where P = "\<lambda>f s acc r. \<not> (f_width f = 0 \<and> current_x s \<le> max_x f)", OF _ assms])
  fix cl f s acc r
  assume ih: "\<And>f s acc r. cl f s acc = Some r \<Longrightarrow> \<not> (f_width f = 0 \<and> current_x s \<le> max_x f)"
    and step: "(if current_x s + f_width f \<le> max_x f
      then cl f
             (s\<lparr>current_x := current_x s + f_width f, current_col := current_col s + 1\<rparr>)
             (acc @ [(bb f s, s)])
      else Some (s, acc)) = Some r"
  show "\<not> (f_width f = 0 \<and> current_x s \<le> max_x f)"
  proof
    assume a: "f_width f = 0 \<and> current_x s \<le> max_x f"
    with step have "cl f
             (s\<lparr>current_x := current_x s + f_width f, current_col := current_col s + 1\<rparr>)
             (acc @ [(bb f s, s)]) = Some r" by simp
    from ih [OF this] a show False by simp
  qed
qed

text \<open>
  Claim C2 says that a full pass always ends, also in count mode when \<open>x\<close> or \<open>y\<close>
  exceeds the extent of the image. For a 3 by 3 image and \<open>x = y = 5\<close> the tile width is
  \<open>3 div 5 = 0\<close>, the inner loop never advances \<open>current_x\<close>, and the pass has no end.
\<close>

theorem count_mode_pass_never_ends:
  "SampleImageTiles_init no_files (Matrix \<lparr>width = 3, height = 3\<rparr>) 5 5 False = Inr stuck_25 \<and>
   sample stuck_25 = None"
proof -
  have "sample stuck_25 = None"
  proof (cases "sample stuck_25")
    case (Some r)
    then have "col_loop (enter stuck_25)
        (stuck_25\<lparr>current_row := 0, current_y := 0, current_col := 0, current_x := 0\<rparr>) [] \<noteq> None"
      unfolding sample_def
      by (subst (asm) row_loop.simps) (auto simp: stuck_25_def enter_def split: if_splits Option.bind_splits)
    then obtain r' where "col_loop (enter stuck_25)
        (stuck_25\<lparr>current_row := 0, current_y := 0, current_col := 0, current_x := 0\<rparr>) [] = Some r'"
      by auto
    from col_loop_stuck [OF this] show ?thesis
      by (simp add: stuck_25_def enter_def)
  qed simp
  moreover have "SampleImageTiles_init no_files (Matrix \<lparr>width = 3, height = 3\<rparr>) 5 5 False = Inr stuck_25"
    by (simp add: SampleImageTiles_init_def load_image_def stuck_25_def)
  ultimately show ?thesis by simp
qed

text \<open>
  The witness for C5: the spec's example, a 105 by 52 image in count mode with
  \<open>x = 4\<close>, \<open>y = 3\<close>, whose pass ends after 12 tiles, and a generator over it advanced to
  its second yield; and the 3 by 3 image with \<open>x = y = 5\<close>, whose pass never ends, after
  9 steps and 4 yields.
\<close>

theorem init_invariants_witness:
  "(0::int) < 4 \<and> (0::int) < 3 \<and>
   SampleImageTiles_init no_files (Matrix \<lparr>width = 105, height = 52\<rparr>) 4 3 False = Inr fits_12 \<and>
   samples fits_12 = tiles_x fits_12 * tiles_y fits_12 \<and>
   tiles_x fits_12 * tile_width fits_12 \<le> int (width (image fits_12)) \<and>
   tiles_y fits_12 * tile_height fits_12 \<le> int (height (image fits_12)) \<and>
   (\<exists>s' ys. sample fits_12 = Some (s', ys) \<and> length ys = 12 \<and>
      geometry s' = geometry fits_12 \<and> list_all (\<lambda>y. geometry (snd y) = geometry fits_12) ys) \<and>
   (\<exists>t gs. after fits_12 [Sample, Advance 0, Advance 0, Advance 0, Advance 0, Advance 0] = (t, gs) \<and>
      current_x t = 26 \<and> current_col t = 1 \<and> geometry t = geometry fits_12 \<and>
      samples t = tiles_x t * tiles_y t) \<and>
   (0::int) < 5 \<and>
   SampleImageTiles_init no_files (Matrix \<lparr>width = 3, height = 3\<rparr>) 5 5 False = Inr stuck_25 \<and>
   fst (run 9 stuck_25) \<noteq> Exhausted \<and> length (snd (snd (run 9 stuck_25))) = 4 \<and>
   geometry (fst (snd (run 9 stuck_25))) = geometry stuck_25 \<and>
   list_all (\<lambda>y. geometry (snd y) = geometry stuck_25) (snd (snd (run 9 stuck_25)))"
proof -
  have i: "SampleImageTiles_init no_files (Matrix \<lparr>width = 105, height = 52\<rparr>) 4 3 False = Inr fits_12"
    by (simp add: SampleImageTiles_init_def load_image_def fits_12_def)
  have j: "SampleImageTiles_init no_files (Matrix \<lparr>width = 3, height = 3\<rparr>) 5 5 False = Inr stuck_25"
    by (simp add: SampleImageTiles_init_def load_image_def stuck_25_def)
  have "map_option (\<lambda>(s', ys). length ys) (sample fits_12) = Some 12"
    by code_simp
  then obtain s' ys where r: "sample fits_12 = Some (s', ys)" and l: "length ys = 12"
    by auto
  note t1 = init_invariants [OF _ _ i]
  note t2 = init_invariants [OF _ _ j]
  from t1 r
  have a: "samples fits_12 = tiles_x fits_12 * tiles_y fits_12 \<and>
   tiles_x fits_12 * tile_width fits_12 \<le> int (width (image fits_12)) \<and>
   tiles_y fits_12 * tile_height fits_12 \<le> int (height (image fits_12)) \<and>
   geometry s' = geometry fits_12 \<and> (\<forall>y\<in>set ys. geometry (snd y) = geometry fits_12)"
    by simp
  obtain t gs where
    c: "after fits_12 [Sample, Advance 0, Advance 0, Advance 0, Advance 0, Advance 0] = (t, gs)"
    by (cases "after fits_12 [Sample, Advance 0, Advance 0, Advance 0, Advance 0, Advance 0]")
  have "current_x (fst (after fits_12 [Sample, Advance 0, Advance 0, Advance 0, Advance 0, Advance 0])) = 26 \<and>
        current_col (fst (after fits_12 [Sample, Advance 0, Advance 0, Advance 0, Advance 0, Advance 0])) = 1"
    by (simp add: after_def fits_12_def enter_def)
  with c have cur: "current_x t = 26" "current_col t = 1" by simp_all
  from t1 c have b: "geometry t = geometry fits_12 \<and> samples t = tiles_x t * tiles_y t"
    by (metis fst_conv zero_less_numeral)
  have d: "fst (run 9 stuck_25) \<noteq> Exhausted \<and> length (snd (snd (run 9 stuck_25))) = 4"
    by (simp add: run_def stuck_25_def enter_def eval_nat_numeral)
  from t2 have e: "geometry (fst (snd (run 9 stuck_25))) = geometry stuck_25 \<and>
      (\<forall>y\<in>set (snd (snd (run 9 stuck_25))). geometry (snd y) = geometry stuck_25)"
    by simp
  from i j a r l c cur b d e show ?thesis by (simp add: list_all_iff)
qed

text \<open>
  Claim C4, as stated, fails: a missing path raises \<open>ValueError\<close>, not \<open>InputError\<close>; an
  argument that is neither a string nor an image raises \<open>ValueError\<close>, not \<open>TypeError\<close>; and
  construction from a valid image raises \<open>ZeroDivisionError\<close> when \<open>x\<close> is 0.
\<close>

theorem init_error_classes_counterexample:
  "SampleImageTiles_init no_files (Str ''missing.tif'') 2 2 False = Inl ValueError \<and>
   SampleImageTiles_init no_files (Str ''missing.tif'') 2 2 False \<noteq> Inl InputError \<and>
   SampleImageTiles_init no_files Other 2 2 False = Inl ValueError \<and>
   SampleImageTiles_init no_files Other 2 2 False \<noteq> Inl TypeError \<and>
   SampleImageTiles_init no_files (Matrix \<lparr>width = 10, height = 10\<rparr>) 0 2 False = Inl ZeroDivisionError"
  by (simp add: SampleImageTiles_init_def load_image_def no_files_def)

text \<open>
  Claim C4 as amended. Construction raises \<open>ValueError\<close> when \<open>image_in\<close> is a path that does
  not exist, a path that exists and does not decode, or neither a string nor an image;
  when \<open>image_in\<close> is an image, or a path that exists and decodes, and \<open>x\<close> and \<open>y\<close> are
  not 0, construction succeeds and holds that image.
\<close>

theorem init_raises_ValueError:
  "(image_in = Str p \<and> \<not> exists e p \<longrightarrow>
      SampleImageTiles_init e image_in x y is_fixed = Inl ValueError) \<and>
   (image_in = Str p \<and> exists e p \<and> OpenImage e p = None \<longrightarrow>
      SampleImageTiles_init e image_in x y is_fixed = Inl ValueError) \<and>
   (image_in = Other \<longrightarrow> SampleImageTiles_init e image_in x y is_fixed = Inl ValueError) \<and>
   ((image_in = Matrix img \<or> (image_in = Str p \<and> exists e p \<and> OpenImage e p = Some img)) \<and>
      x \<noteq> 0 \<and> y \<noteq> 0 \<longrightarrow>
      (\<exists>s. SampleImageTiles_init e image_in x y is_fixed = Inr s \<and> image s = img))"
  by (auto simp: SampleImageTiles_init_def load_image_def)

text \<open>The witness for C4 as amended, one instance for each of its cases.\<close>

theorem init_raises_ValueError_witness:
  "\<not> exists one_file ''c.tif'' \<and>
   SampleImageTiles_init one_file (Str ''c.tif'') 10 5 True = Inl ValueError \<and>
   exists one_file ''b.txt'' \<and> OpenImage one_file ''b.txt'' = None \<and>
   SampleImageTiles_init one_file (Str ''b.txt'') 10 5 True = Inl ValueError \<and>
   SampleImageTiles_init one_file Other 10 5 True = Inl ValueError \<and>
   exists one_file ''a.tif'' \<and> OpenImage one_file ''a.tif'' = Some \<lparr>width = 100, height = 50\<rparr> \<and>
   (\<exists>s. SampleImageTiles_init one_file (Str ''a.tif'') 10 5 True = Inr s \<and>
        image s = \<lparr>width = 100, height = 50\<rparr>) \<and>
   (\<exists>s. SampleImageTiles_init one_file (Matrix \<lparr>width = 100, height = 50\<rparr>) 10 5 True = Inr s \<and>
        image s = \<lparr>width = 100, height = 50\<rparr>)"
proof -
  have a: "\<not> exists one_file ''c.tif''"
    and b: "exists one_file ''b.txt''" "OpenImage one_file ''b.txt'' = None"
    and c: "exists one_file ''a.tif''" "OpenImage one_file ''a.tif'' = Some \<lparr>width = 100, height = 50\<rparr>"
    by (simp_all add: one_file_def)
  note t = init_raises_ValueError [where e = one_file and x = 10 and y = 5 and is_fixed = True]
  from t [where image_in = "Str ''c.tif''" and p = "''c.tif''"] a
  have 1: "SampleImageTiles_init one_file (Str ''c.tif'') 10 5 True = Inl ValueError" by simp
  from t [where image_in = "Str ''b.txt''" and p = "''b.txt''"] b
  have 2: "SampleImageTiles_init one_file (Str ''b.txt'') 10 5 True = Inl ValueError" by simp
  from t [where image_in = Other]
  have 3: "SampleImageTiles_init one_file Other 10 5 True = Inl ValueError" by simp
  from t [where image_in = "Str ''a.tif''" and p = "''a.tif''" and img = "\<lparr>width = 100, height = 50\<rparr>"] c
  have 4: "\<exists>s. SampleImageTiles_init one_file (Str ''a.tif'') 10 5 True = Inr s \<and>
        image s = \<lparr>width = 100, height = 50\<rparr>" by simp
  from t [where image_in = "Matrix \<lparr>width = 100, height = 50\<rparr>" and img = "\<lparr>width = 100, height = 50\<rparr>"]
  have 5: "\<exists>s. SampleImageTiles_init one_file (Matrix \<lparr>width = 100, height = 50\<rparr>) 10 5 True = Inr s \<and>
        image s = \<lparr>width = 100, height = 50\<rparr>" by simp
  from a b c 1 2 3 4 5 show ?thesis by simp
qed

section \<open>Properties of rounding\<close>

lemma bitlen_powi_bounds:
  assumes "0 < a"
  shows "2 powi (bitlen a - 1) \<le> (of_int a :: rat)" and "(of_int a :: rat) < 2 powi bitlen a"
proof -
  from assms have b1: "1 \<le> bitlen a" by (auto simp: bitlen_alt_def)
  from bitlen_bounds [OF assms] have lo: "2 ^ nat (bitlen a - 1) \<le> a" and hi: "a < 2 ^ nat (bitlen a)"
    by auto
  have "(2::rat) powi (bitlen a - 1) = 2 ^ nat (bitlen a - 1)"
    using b1 by (simp add: power_int_def)
  also have "\<dots> = of_int (2 ^ nat (bitlen a - 1))" by simp
  also have "\<dots> \<le> of_int a" using lo by (simp only: of_int_le_iff)
  finally show "2 powi (bitlen a - 1) \<le> (of_int a :: rat)" .
  have "(of_int a :: rat) < of_int (2 ^ nat (bitlen a))" using hi by (simp only: of_int_less_iff)
  also have "\<dots> = 2 ^ nat (bitlen a)" by simp
  also have "\<dots> = 2 powi bitlen a" using b1 by (simp add: power_int_def)
  finally show "(of_int a :: rat) < 2 powi bitlen a" .
qed

lemma ilog2_bounds:
  assumes "x \<noteq> 0"
  shows "2 powi ilog2 x \<le> \<bar>x\<bar>" and "\<bar>x\<bar> < 2 powi (ilog2 x + 1)"
proof -
  obtain a b where q: "quotient_of \<bar>x\<bar> = (a, b)" by (cases "quotient_of \<bar>x\<bar>")
  then have b: "0 < b" and x: "\<bar>x\<bar> = of_int a / of_int b"
    by (auto dest: quotient_of_denom_pos quotient_of_div)
  from assms have "0 < \<bar>x\<bar>" by simp
  with x b have a: "0 < a" by (simp add: zero_less_divide_iff)
  define l where "l = bitlen a - bitlen b"
  have il: "ilog2 x = (if 2 powi l \<le> \<bar>x\<bar> then l else l - 1)"
    by (simp add: ilog2_def q l_def Let_def)
  have bpos: "(0::rat) < of_int b" using b by simp
  have up: "\<bar>x\<bar> < 2 powi (l + 1)"
  proof -
    have "of_int a < (2::rat) powi bitlen a" by (rule bitlen_powi_bounds [OF a])
    also have "\<dots> = 2 powi (l + 1) * 2 powi (bitlen b - 1)"
      by (simp add: l_def flip: power_int_add)
    also have "\<dots> \<le> 2 powi (l + 1) * of_int b"
      by (intro mult_left_mono bitlen_powi_bounds [OF b]) simp
    finally show ?thesis using bpos by (simp add: x pos_divide_less_eq)
  qed
  have lo: "2 powi (l - 1) \<le> \<bar>x\<bar>"
  proof -
    have "2 powi (l - 1) * of_int b \<le> 2 powi (l - 1) * (2::rat) powi bitlen b"
      by (intro mult_left_mono less_imp_le [OF bitlen_powi_bounds(2) [OF b]]) simp
    also have "\<dots> = 2 powi (bitlen a - 1)"
      by (simp add: l_def flip: power_int_add)
    also have "\<dots> \<le> of_int a" by (rule bitlen_powi_bounds [OF a])
    finally show ?thesis using bpos by (simp add: x pos_le_divide_eq)
  qed
  show "2 powi ilog2 x \<le> \<bar>x\<bar>" using lo by (simp add: il)
  show "\<bar>x\<bar> < 2 powi (ilog2 x + 1)" using up by (auto simp: il not_le)
qed

lemma ilog2_unique:
  assumes "2 powi k \<le> \<bar>x\<bar>" and "\<bar>x\<bar> < 2 powi (k + 1)"
  shows "ilog2 x = k"
proof -
  have nz: "x \<noteq> 0"
  proof
    assume "x = 0"
    with assms(1) have "2 powi k \<le> (0::rat)" by simp
    moreover have "(0::rat) < 2 powi k" by (rule zero_less_power_int) simp
    ultimately show False by linarith
  qed
  note b = ilog2_bounds [OF nz]
  have "\<not> k < ilog2 x"
  proof
    assume "k < ilog2 x"
    then have "(2::rat) powi (k + 1) \<le> 2 powi ilog2 x"
      by (intro power_int_increasing) auto
    with b(1) assms(2) show False by simp
  qed
  moreover have "\<not> ilog2 x < k"
  proof
    assume "ilog2 x < k"
    then have "(2::rat) powi (ilog2 x + 1) \<le> 2 powi k"
      by (intro power_int_increasing) auto
    with b(2) assms(1) show False by simp
  qed
  ultimately show ?thesis by simp
qed

lemma ilog2_less:
  assumes "x \<noteq> 0" and "\<bar>x\<bar> < 2 powi k"
  shows "ilog2 x < k"
proof (rule ccontr)
  assume "\<not> ilog2 x < k"
  then have "(2::rat) powi k \<le> 2 powi ilog2 x"
    by (intro power_int_increasing) auto
  with ilog2_bounds(1) [OF assms(1)] assms(2) show False by simp
qed

lemma ilog2_mono:
  assumes "x \<noteq> 0" and "\<bar>x\<bar> \<le> \<bar>y\<bar>"
  shows "ilog2 x \<le> ilog2 y"
proof -
  from assms have ny: "y \<noteq> 0" by auto
  have "\<bar>x\<bar> < 2 powi (ilog2 y + 1)"
    using assms(2) ilog2_bounds(2) [OF ny] by simp
  from ilog2_less [OF assms(1) this] show ?thesis by simp
qed

lemma ilog2_minus [simp]: "ilog2 (- x) = ilog2 x"
  by (simp add: ilog2_def)

lemma rne_of_int [simp]: "rne (of_int n) = n"
  by (simp add: rne_def)

lemma rne_cases:
  "rne y = \<lfloor>y\<rfloor> \<and> y - of_int \<lfloor>y\<rfloor> \<le> 1 / 2 \<or>
   rne y = \<lfloor>y\<rfloor> + 1 \<and> 1 / 2 \<le> y - of_int \<lfloor>y\<rfloor>"
  by (auto simp: rne_def Let_def)

lemma rne_error: "\<bar>of_int (rne y) - y\<bar> \<le> 1 / 2"
proof -
  have "of_int \<lfloor>y\<rfloor> \<le> y" and "y < of_int \<lfloor>y\<rfloor> + 1" by linarith+
  with rne_cases [of y] show ?thesis by auto
qed

lemma rne_mono:
  assumes "y \<le> z"
  shows "rne y \<le> rne z"
proof -
  have yz: "\<lfloor>y\<rfloor> \<le> \<lfloor>z\<rfloor>" using assms by (rule floor_mono)
  have ry: "rne y \<le> \<lfloor>y\<rfloor> + 1" and rz: "\<lfloor>z\<rfloor> \<le> rne z"
    using rne_cases [of y] rne_cases [of z] by auto
  show ?thesis
  proof (cases "\<lfloor>y\<rfloor> = \<lfloor>z\<rfloor>")
    case False
    with yz ry rz show ?thesis by linarith
  next
    case True
    with assms have "y - of_int \<lfloor>y\<rfloor> \<le> z - of_int \<lfloor>z\<rfloor>" by simp
    with True show ?thesis by (auto simp: rne_def Let_def)
  qed
qed

lemma rne_ge: "of_int n \<le> y \<Longrightarrow> n \<le> rne y"
  using rne_mono [of "of_int n" y] by simp

lemma rne_le: "y \<le> of_int n \<Longrightarrow> rne y \<le> n"
  using rne_mono [of y "of_int n"] by simp

lemma rne_minus: "rne (- y) = - rne y"
proof (cases "y = of_int \<lfloor>y\<rfloor>")
  case True
  then obtain n where "y = of_int n" ..
  then have "- y = of_int (- n)" by simp
  then show ?thesis unfolding \<open>y = of_int n\<close> by (simp only: rne_of_int)
next
  case False
  then have lt: "of_int \<lfloor>y\<rfloor> < y" by (metis of_int_floor_le order_le_less)
  have fl: "\<lfloor>- y\<rfloor> = - \<lfloor>y\<rfloor> - 1"
    using lt by (intro floor_unique) (auto, linarith)
  show ?thesis
    using lt by (auto simp: rne_def Let_def fl field_simps)
qed

lemma pow2_add: "(2::rat) powi (a + b) = 2 powi a * 2 powi b"
  by (rule power_int_add) simp

lemma ulp_exp_minus [simp]: "ulp_exp (- x) = ulp_exp x"
  by (simp add: ulp_exp_def)

lemma ulp_exp_ge: "- 1074 \<le> ulp_exp x"
  by (simp add: ulp_exp_def)

lemma nearest64_minus: "nearest64 (- x) = - nearest64 x"
  by (simp add: nearest64_def rne_minus)

lemma nearest64_0 [simp]: "nearest64 0 = 0"
  using rne_of_int [of 0] by (simp add: nearest64_def)

lemma nearest64_nonneg:
  assumes "0 \<le> x"
  shows "0 \<le> nearest64 x"
proof -
  have "(0::rat) \<le> x / 2 powi ulp_exp x" using assms by simp
  then have "0 \<le> rne (x / 2 powi ulp_exp x)" using rne_ge [of 0] by simp
  then show ?thesis by (simp add: nearest64_def)
qed

lemma nearest64_exact:
  assumes x: "x = of_int m * 2 powi e" and m: "\<bar>m\<bar> < 2 ^ 53" and e: "- 1074 \<le> e"
  shows "nearest64 x = x"
proof (cases "m = 0")
  case True
  with x show ?thesis by simp
next
  case False
  with x have nz: "x \<noteq> 0" by simp
  have "\<bar>x\<bar> = of_int \<bar>m\<bar> * 2 powi e" by (simp add: x abs_mult)
  also have "\<dots> < of_int (2 ^ 53) * 2 powi e"
    using m by (intro mult_strict_right_mono) (simp_all only: of_int_less_iff zero_less_power_int zero_less_numeral)
  also have "\<dots> = 2 powi (e + 53)" by (simp add: pow2_add)
  finally have "ilog2 x < e + 53" by (rule ilog2_less [OF nz])
  with e have le: "ulp_exp x \<le> e" by (simp add: ulp_exp_def)
  define u where "u = ulp_exp x"
  define d where "d = nat (e - u)"
  have "e = int d + u" using le by (simp add: d_def u_def)
  then have "(2::rat) powi e = 2 powi int d * 2 powi u" by (simp only: pow2_add)
  then have pe: "(2::rat) powi e = of_int (2 ^ d) * 2 powi u" by (simp add: power_int_of_nat)
  have xu: "x = of_int (m * 2 ^ d) * 2 powi u"
    unfolding x pe by simp
  have "x / 2 powi u = of_int (m * 2 ^ d) * 2 powi u / 2 powi u"
    using xu by simp
  also have "\<dots> = of_int (m * 2 ^ d)" by simp
  finally have "rne (x / 2 powi u) = m * 2 ^ d" by (simp only: rne_of_int)
  then have "nearest64 x = of_int (m * 2 ^ d) * 2 powi u"
    by (simp only: nearest64_def u_def)
  with xu show ?thesis by simp
qed

lemma nearest64_error: "\<bar>nearest64 x - x\<bar> \<le> 2 powi ulp_exp x / 2"
proof -
  let ?p = "(2::rat) powi ulp_exp x"
  have p: "0 < ?p" by simp
  have "nearest64 x - x = (of_int (rne (x / ?p)) - x / ?p) * ?p"
    by (simp add: nearest64_def algebra_simps)
  then have "\<bar>nearest64 x - x\<bar> = \<bar>of_int (rne (x / ?p)) - x / ?p\<bar> * ?p"
    by (simp add: abs_mult)
  also have "\<dots> \<le> (1 / 2) * ?p"
    by (intro mult_right_mono rne_error) simp
  finally show ?thesis by simp
qed

lemma pow_ulp_exp_le:
  assumes "x \<noteq> 0"
  shows "2 powi ulp_exp x \<le> max (2 powi (- 1074)) (\<bar>x\<bar> * 2 powi (- 52))"
proof (cases "ilog2 x - 52 \<le> - 1074")
  case True
  then have "ulp_exp x = - 1074" by (simp add: ulp_exp_def)
  then show ?thesis by simp
next
  case False
  then have "ulp_exp x = ilog2 x - 52" by (simp add: ulp_exp_def)
  then have "ulp_exp x = ilog2 x + (- 52)" by simp
  then have "(2::rat) powi ulp_exp x = 2 powi ilog2 x * 2 powi (- 52)"
    by (simp only: pow2_add)
  also have "\<dots> \<le> \<bar>x\<bar> * 2 powi (- 52)"
    by (intro mult_right_mono ilog2_bounds(1) [OF assms]) simp
  finally show ?thesis by simp
qed

lemma nearest64_grid: "\<exists>k. nearest64 x = of_int k * 2 powi (- 1074)"
proof -
  define d where "d = nat (ulp_exp x + 1074)"
  have "ulp_exp x = int d + (- 1074)" using ulp_exp_ge [of x] by (simp add: d_def)
  then have "(2::rat) powi ulp_exp x = 2 powi (int d + (- 1074))" by simp
  also have "\<dots> = 2 powi int d * 2 powi (- 1074)" by (rule pow2_add)
  finally have "(2::rat) powi ulp_exp x = of_int (2 ^ d) * 2 powi (- 1074)"
    by (simp add: power_int_of_nat)
  then have "nearest64 x = of_int (rne (x / 2 powi ulp_exp x) * 2 ^ d) * 2 powi (- 1074)"
    by (simp add: nearest64_def)
  then show ?thesis ..
qed

lemma nearest64_mono_pos:
  assumes x: "0 < x" and xy: "x \<le> y"
  shows "nearest64 x \<le> nearest64 y"
proof -
  from x xy have y: "0 < y" by simp
  from x y have nx: "x \<noteq> 0" and ny: "y \<noteq> 0" by auto
  have "ilog2 x \<le> ilog2 y" using x xy by (intro ilog2_mono) auto
  then have e: "ulp_exp x \<le> ulp_exp y" by (auto simp: ulp_exp_def)
  show ?thesis
  proof (cases "ulp_exp x = ulp_exp y")
    case True
    have "x / 2 powi ulp_exp y \<le> y / 2 powi ulp_exp y"
      using xy by (intro divide_right_mono) simp_all
    then have "rne (x / 2 powi ulp_exp y) \<le> rne (y / 2 powi ulp_exp y)" by (rule rne_mono)
    then have "(of_int (rne (x / 2 powi ulp_exp y)) :: rat) \<le> of_int (rne (y / 2 powi ulp_exp y))"
      by (simp only: of_int_le_iff)
    then show ?thesis
      unfolding nearest64_def True by (intro mult_right_mono) simp_all
  next
    case False
    with e have lt: "ulp_exp x < ulp_exp y" by simp
    with ulp_exp_ge [of x] have ey: "ulp_exp y = ilog2 y - 52" by (auto simp: ulp_exp_def)
    have ex: "ilog2 x - 52 \<le> ulp_exp x" by (simp add: ulp_exp_def)
    let ?px = "(2::rat) powi ulp_exp x" and ?py = "(2::rat) powi ulp_exp y"
    have "x < 2 powi (ilog2 x + 1)" using ilog2_bounds(2) [OF nx] x by simp
    also have "\<dots> \<le> 2 powi (ulp_exp x + 53)"
      using ex by (intro power_int_increasing) auto
    also have "\<dots> = of_int (2 ^ 53) * ?px" by (simp add: pow2_add)
    finally have "x / ?px \<le> of_int (2 ^ 53)" by (simp add: pos_divide_le_eq)
    then have "rne (x / ?px) \<le> 2 ^ 53" by (rule rne_le)
    then have "(of_int (rne (x / ?px)) :: rat) \<le> of_int (2 ^ 53)" by (simp only: of_int_le_iff)
    then have "nearest64 x \<le> of_int (2 ^ 53) * ?px"
      unfolding nearest64_def by (intro mult_right_mono) simp_all
    also have "\<dots> = 2 powi (ulp_exp x + 53)" by (simp add: pow2_add)
    also have "\<dots> \<le> 2 powi (ulp_exp y + 52)"
      using lt by (intro power_int_increasing) auto
    also have "\<dots> = of_int (2 ^ 52) * ?py" by (simp add: pow2_add)
    also have "\<dots> \<le> nearest64 y"
    proof -
      have "ilog2 y = 52 + ulp_exp y" by (simp add: ey)
      then have "(2::rat) powi ilog2 y = 2 powi 52 * ?py" by (simp only: pow2_add)
      then have "of_int (2 ^ 52) * ?py = 2 powi ilog2 y" by simp
      also have "\<dots> \<le> y" using ilog2_bounds(1) [OF ny] y by simp
      finally have "of_int (2 ^ 52) \<le> y / ?py" by (simp add: pos_le_divide_eq)
      then have "2 ^ 52 \<le> rne (y / ?py)" by (rule rne_ge)
      then have "(of_int (2 ^ 52) :: rat) \<le> of_int (rne (y / ?py))" by (simp only: of_int_le_iff)
      then show ?thesis
        unfolding nearest64_def by (intro mult_right_mono) simp_all
    qed
    finally show ?thesis .
  qed
qed

lemma nearest64_mono:
  assumes "x \<le> y"
  shows "nearest64 x \<le> nearest64 y"
proof -
  consider "0 < x" | "x \<le> 0" "0 \<le> y" | "y < 0" by linarith
  then show ?thesis
  proof cases
    case 1
    then show ?thesis using assms by (rule nearest64_mono_pos)
  next
    case 2
    then have "nearest64 x \<le> 0" using nearest64_nonneg [of "- x"] by (simp add: nearest64_minus)
    moreover have "0 \<le> nearest64 y" using 2 by (intro nearest64_nonneg)
    ultimately show ?thesis by simp
  next
    case 3
    then have "nearest64 (- y) \<le> nearest64 (- x)"
      using assms by (intro nearest64_mono_pos) auto
    then show ?thesis by (simp add: nearest64_minus)
  qed
qed

lemma pow2_1024_pos: "(0::rat) < 2 powi 1024"
  by (rule zero_less_power_int) simp

lemma round64_exact:
  assumes x: "x = of_int m * 2 powi e" and m: "\<bar>m\<bar> < 2 ^ 53" and e: "- 1074 \<le> e" "e \<le> 971"
  shows "round64 x = Fin x"
proof -
  have n: "nearest64 x = x" using x m e(1) by (rule nearest64_exact)
  have "\<bar>x\<bar> = of_int \<bar>m\<bar> * 2 powi e" by (simp add: x abs_mult)
  also have "\<dots> < of_int (2 ^ 53) * 2 powi e"
    using m by (intro mult_strict_right_mono) (simp_all only: of_int_less_iff zero_less_power_int zero_less_numeral)
  also have "\<dots> = 2 powi (53 + e)" by (simp add: pow2_add)
  also have "\<dots> \<le> 2 powi 1024" using e(2) by (intro power_int_increasing) auto
  finally have "\<bar>x\<bar> < 2 powi 1024" .
  then have "\<not> 2 powi 1024 \<le> x" and "\<not> x \<le> - (2 powi 1024)" by (auto simp: abs_less_iff)
  then show ?thesis by (simp add: round64_def n Let_def)
qed

lemma round64_of_int:
  assumes "\<bar>m\<bar> < 2 ^ 53"
  shows "round64 (of_int m) = Fin (of_int m)"
  by (rule round64_exact [where m = m and e = 0]) (use assms in simp_all)

lemma round64_0 [simp]: "round64 0 = Fin 0"
  using round64_of_int [of 0] by simp

lemma round64_1 [simp]: "round64 1 = Fin 1"
  using round64_of_int [of 1] by simp

lemma round64_100 [simp]: "round64 100 = Fin 100"
  using round64_of_int [of 100] by simp

lemma round64_cases:
  "round64 x = PInf \<and> 2 powi 1024 \<le> nearest64 x \<or>
   round64 x = NInf \<and> nearest64 x \<le> - (2 powi 1024) \<or>
   round64 x = Fin (nearest64 x) \<and> - (2 powi 1024) < nearest64 x \<and> nearest64 x < 2 powi 1024"
  using pow2_1024_pos by (auto simp: round64_def Let_def not_le)

lemma round64_not_NaN [simp]: "round64 x \<noteq> NaN"
  using round64_cases [of x] by auto

lemma round64_mono:
  assumes "x \<le> y"
  shows "fle (round64 x) (round64 y)"
  using nearest64_mono [OF assms] round64_cases [of x] round64_cases [of y] pow2_1024_pos
  by auto

lemma round64_nonneg:
  assumes "0 \<le> x"
  shows "round64 x = PInf \<or> (\<exists>r. round64 x = Fin r \<and> 0 \<le> r)"
  using nearest64_nonneg [OF assms] round64_cases [of x] pow2_1024_pos by auto

lemma round64_nonpos:
  assumes "x \<le> 0"
  shows "round64 x = NInf \<or> (\<exists>r. round64 x = Fin r \<and> r \<le> 0)"
proof -
  have "nearest64 x \<le> 0" using nearest64_mono [OF assms] by simp
  with round64_cases [of x] pow2_1024_pos show ?thesis by auto
qed

lemma round64_unit:
  assumes "0 \<le> x" and "x \<le> 1"
  shows "\<exists>r. round64 x = Fin r \<and> 0 \<le> r \<and> r \<le> 1"
  using round64_mono [OF assms(1)] round64_mono [OF assms(2)]
  by (cases "round64 x") auto

lemma round64_percent:
  assumes "0 \<le> x" and "x \<le> 100"
  shows "\<exists>r. round64 x = Fin r \<and> 0 \<le> r \<and> r \<le> 100"
  using round64_mono [OF assms(1)] round64_mono [OF assms(2)]
  by (cases "round64 x") auto

lemma tiny_pos: "0 < tiny"
  unfolding tiny_def by (rule zero_less_power_int) simp

lemma tiny_le_1: "tiny \<le> 1"
proof -
  have "(2::rat) powi (- 1022) \<le> 2 powi 0" by (intro power_int_increasing) auto
  then show ?thesis by (simp add: tiny_def)
qed

lemma normalized_masked:
  assumes "\<not> isfinite (clip1 v lo hi) \<or> klo \<or> khi"
  shows "normalized v lo klo hi khi = Fin 0"
  using assms by (auto simp: normalized_def Let_def)

lemma normalized_unmasked:
  assumes "clip1 v lo hi = Fin y" and "\<not> klo" and "\<not> khi"
  shows "normalized v lo klo hi khi = scaled (fsub (Fin y) lo) (fsub hi lo)"
  using assms by (simp add: normalized_def Let_def scaled_def)

lemma round64_finite_bound:
  assumes "round64 x = Fin r"
  shows "\<bar>r\<bar> < 2 powi 1024"
  using round64_cases [of x] assms by (auto simp: abs_less_iff)

lemma small_times_tiny:
  assumes "\<bar>a\<bar> < 2 powi 1024"
  shows "\<exists>t. round64 (\<bar>a\<bar> * tiny) = Fin t \<and> 0 \<le> t \<and> t \<le> 100"
proof (rule round64_percent)
  show "0 \<le> \<bar>a\<bar> * tiny" using tiny_pos by simp
  have "\<bar>a\<bar> * tiny \<le> 2 powi 1024 * tiny"
    using assms tiny_pos by (intro mult_right_mono) auto
  also have "\<dots> = 2 powi (1024 + (- 1022))" unfolding tiny_def by (rule pow2_add [symmetric])
  also have "\<dots> = 4" by simp
  finally show "\<bar>a\<bar> * tiny \<le> 100" by simp
qed

lemma scaled_zero:
  assumes "r \<noteq> NaN"
  shows "scaled (Fin 0) r = Fin 0"
  using assms by (cases r) (auto simp: scaled_def domain_safe_divide_def fge_def)

lemma scaled_inf_inf: "scaled PInf PInf = Fin 0"
  using tiny_pos by (simp add: scaled_def domain_safe_divide_def fge_def signed_inf_def)

lemma scaled_fin_inf:
  assumes "round64 p = Fin a"
  shows "scaled (Fin a) PInf = Fin 0"
proof -
  from small_times_tiny [OF round64_finite_bound [OF assms]]
  obtain t where "round64 (\<bar>a\<bar> * tiny) = Fin t" by auto
  then show ?thesis by (simp add: scaled_def domain_safe_divide_def fge_def)
qed

lemma scaled_round_inf:
  assumes "0 \<le> p"
  shows "scaled (round64 p) PInf = Fin 0"
proof -
  from round64_nonneg [OF assms] consider "round64 p = PInf" | a where "round64 p = Fin a" by auto
  then show ?thesis
  proof cases
    case 1
    then show ?thesis by (simp add: scaled_inf_inf)
  next
    case 2
    then show ?thesis using scaled_fin_inf [OF 2] by simp
  qed
qed

lemma scaled_fin_fin:
  assumes a: "round64 p = Fin a" and "0 \<le> a" and "a \<le> r"
  shows "\<exists>s. scaled (Fin a) (Fin r) = Fin s \<and> 0 \<le> s \<and> s \<le> 100"
proof -
  from small_times_tiny [OF round64_finite_bound [OF a]]
  obtain t where t: "round64 (\<bar>a\<bar> * tiny) = Fin t" "0 \<le> t" by auto
  show ?thesis
  proof (cases "\<bar>r\<bar> \<le> t")
    case True
    then have "domain_safe_divide (Fin a) (Fin r)"
      using t by (simp add: domain_safe_divide_def fge_def)
    then show ?thesis by (simp add: scaled_def)
  next
    case False
    then have d: "\<not> domain_safe_divide (Fin a) (Fin r)"
      using t by (simp add: domain_safe_divide_def fge_def)
    from False t(2) have r: "0 < r" using assms(2,3) by linarith
    have "0 \<le> a / r" and "a / r \<le> 1" using assms(2,3) r by simp_all
    from round64_unit [OF this] obtain q where q: "round64 (a / r) = Fin q" "0 \<le> q" "q \<le> 1"
      by auto
    have "0 \<le> q * 100" and "q * 100 \<le> 100" using q by simp_all
    from round64_percent [OF this] obtain s where "round64 (q * 100) = Fin s" "0 \<le> s" "s \<le> 100"
      by auto
    with d q r show ?thesis by (simp add: scaled_def)
  qed
qed

lemma scaled_round_round:
  assumes "0 \<le> p" and "p \<le> p'"
  shows "\<exists>s. scaled (round64 p) (round64 p') = Fin s \<and> 0 \<le> s \<and> s \<le> 100"
proof -
  note m = round64_mono [OF assms(2)]
  from round64_nonneg [OF assms(1)] consider "round64 p = PInf" | a where "round64 p = Fin a" "0 \<le> a"
    by auto
  then show ?thesis
  proof cases
    case 1
    with m have "round64 p' = PInf" by (cases "round64 p'") auto
    with 1 show ?thesis by (simp add: scaled_inf_inf)
  next
    case 2
    show ?thesis
    proof (cases "round64 p'")
      case NaN
      then show ?thesis by simp
    next
      case NInf
      with m 2 show ?thesis by simp
    next
      case PInf
      with scaled_fin_inf [OF 2(1)] 2 show ?thesis by simp
    next
      case (Fin r)
      with m 2 have "a \<le> r" by simp
      from scaled_fin_fin [OF 2(1) 2(2) this] 2 Fin show ?thesis by simp
    qed
  qed
qed

lemma clip_Fin:
  assumes "clip1 v lo hi = Fin y"
  shows "lo = NInf \<and> (hi = PInf \<or> (\<exists>x. hi = Fin x)) \<or>
         (\<exists>m. lo = Fin m \<and> m \<le> y \<and>
            (hi = PInf \<or> (hi = NInf \<and> y = m) \<or> (\<exists>x. hi = Fin x \<and> (y \<le> x \<or> y = m))))"
  using assms
  by (cases v; cases hi; cases lo) (auto simp: clip1_def fmaximum_def fminimum_def split: if_splits)

lemma normalized_range:
  "\<exists>s. normalized v lo klo hi khi = Fin s \<and> 0 \<le> s \<and> s \<le> 100"
proof (cases "isfinite (clip1 v lo hi) \<and> \<not> klo \<and> \<not> khi")
  case False
  then have "normalized v lo klo hi khi = Fin 0" by (intro normalized_masked) auto
  then show ?thesis by simp
next
  case True
  then obtain y where w: "clip1 v lo hi = Fin y"
    by (cases "clip1 v lo hi") auto
  with True have n: "normalized v lo klo hi khi = scaled (fsub (Fin y) lo) (fsub hi lo)"
    by (intro normalized_unmasked) auto
  from clip_Fin [OF w] consider
      (ninf) "lo = NInf" "hi = PInf \<or> (\<exists>x. hi = Fin x)"
    | (pinf) m where "lo = Fin m" "m \<le> y" "hi = PInf"
    | (low) m where "lo = Fin m" "y = m" "hi = NInf"
    | (mid) m x where "lo = Fin m" "m \<le> y" "hi = Fin x" "y \<le> x"
    | (flat) m x where "lo = Fin m" "y = m" "hi = Fin x"
    by blast
  then show ?thesis
  proof cases
    case ninf
    then show ?thesis unfolding n using scaled_inf_inf by auto
  next
    case pinf
    then show ?thesis unfolding n using scaled_round_inf [of "y - m"] by simp
  next
    case low
    then show ?thesis unfolding n using scaled_zero [of NInf] by simp
  next
    case mid
    then show ?thesis unfolding n using scaled_round_round [of "y - m" "x - m"] by simp
  next
    case flat
    then show ?thesis unfolding n using scaled_zero [of "round64 (x - m)"] by simp
  qed
qed

section \<open>Properties of the normalization routine\<close>

lemma broadcast_same [simp]: "length v = n \<Longrightarrow> broadcast n v = Inr v"
  by (simp add: broadcast_def)

lemma raise_or_Inr [simp]: "raise_or (Inr v) k = k v"
  by (simp add: raise_or_def)

lemma raise_or_Inl [simp]: "raise_or (Inl e) k = Inl e"
  by (simp add: raise_or_def)

lemma rescale_entry:
  assumes ws: "well_shaped a"
    and len: "length (vdata mins) = ncols a" "length (vmask mins) = ncols a"
      "length (vdata maxs) = ncols a" "length (vmask maxs) = ncols a"
  shows "\<exists>b. rescale a mins maxs = Inr b \<and> ncols b = ncols a \<and>
           length (rows b) = length (rows a) \<and>
           (\<forall>i<length (rows a). length (rows b ! i) = ncols a \<and>
              (\<forall>c<ncols a. rows b ! i ! c =
                 normalized (rows a ! i ! c) (vdata mins ! c) (vmask mins ! c)
                   (vdata maxs ! c) (vmask maxs ! c)))"
proof -
  have rl: "\<And>i. i < length (rows a) \<Longrightarrow> length (rows a ! i) = ncols a"
    using ws by (simp add: well_shaped_def list_all_length)
  show ?thesis
    using len rl
    by (simp add: rescale_def clip_def ma_isub_def ma_sub_def ma_idiv_def filled_def times_def
        masked_invalid_def filled_list_def normalized_def Let_def)
qed

lemma collect_map_Inr: "collect (map (\<lambda>c. Inr (g c)) cs) = Inr (map g cs)"
  by (induction cs) simp_all

lemma reduce_nonempty: "xs \<noteq> [] \<Longrightarrow> reduce f xs = Inr (foldl f (hd xs) (tl xs))"
  by (cases xs) simp_all

lemma filled_list_length [simp]: "length (filled_list vs ks fill) = min (length vs) (length ks)"
  by (simp add: filled_list_def)

lemma all_masked_iff: "list_all (\<lambda>k. k) (map (\<lambda>v. \<not> isfinite v) vs) = (fin_vals vs = [])"
  by (induction vs rule: fin_vals.induct) simp_all

lemma ma_reduce_masked_invalid:
  assumes ne: "rows a \<noteq> []" and ws: "well_shaped a"
  shows "ma_reduce f fill (masked_invalid a) =
    Inr \<lparr>vdata = map (\<lambda>c. if fin_vals (column (rows a) c) = [] then Fin default_fill_value
                            else foldl f (hd (map (\<lambda>v. if isfinite v then v else fill) (column (rows a) c)))
                                   (tl (map (\<lambda>v. if isfinite v then v else fill) (column (rows a) c))))
                     [0..<ncols a],
         vmask = map (\<lambda>c. fin_vals (column (rows a) c) = []) [0..<ncols a]\<rparr>"
proof -
  have rl: "\<And>r. r \<in> set (rows a) \<Longrightarrow> length r = ncols a"
    using ws by (simp add: well_shaped_def list_all_iff)
  have km: "column (mask (masked_invalid a)) c = map (\<lambda>v. \<not> isfinite v) (column (rows a) c)"
    if "c < ncols a" for c
    using that rl by (simp add: column_def masked_invalid_def)
  have fl: "filled_list (column (rows a) c) (column (mask (masked_invalid a)) c) fill =
        map (\<lambda>v. if isfinite v then v else fill) (column (rows a) c)" if "c < ncols a" for c
    unfolding km [OF that] by (simp add: filled_list_def zip_map2 zip_same_conv_map)
  have nonempty: "map (\<lambda>v. if isfinite v then v else fill) (column (rows a) c) \<noteq> []" for c
    using ne by (simp add: column_def)
  have base: "base (masked_invalid a) = a" by (simp add: masked_invalid_def)
  have red: "map (\<lambda>c. reduce f (filled_list (column (rows a) c) (column (mask (masked_invalid a)) c) fill))
               [0..<ncols a] =
             map (\<lambda>c. Inr (foldl f (hd (map (\<lambda>v. if isfinite v then v else fill) (column (rows a) c)))
                                   (tl (map (\<lambda>v. if isfinite v then v else fill) (column (rows a) c)))))
               [0..<ncols a]"
    by (rule map_cong) (simp_all add: fl reduce_nonempty [OF nonempty])
  have msk: "map (\<lambda>c. list_all (\<lambda>k. k) (column (mask (masked_invalid a)) c)) [0..<ncols a] =
             map (\<lambda>c. fin_vals (column (rows a) c) = []) [0..<ncols a]"
    by (rule map_cong) (simp_all add: km all_masked_iff)
  show ?thesis
    unfolding ma_reduce_def base red msk collect_map_Inr
    by (simp add: ne filled_list_def zip_map_map zip_same_conv_map Let_def)
qed

lemma Max_insert_max:
  assumes "finite S"
  shows "Max (insert (max m x) S) = max m (Max (insert x S))"
  using assms by (cases "S = {}") (simp_all add: max.assoc)

lemma Min_insert_min:
  assumes "finite S"
  shows "Min (insert (min m x) S) = min m (Min (insert x S))"
  using assms by (cases "S = {}") (simp_all add: min.assoc)

lemma foldl_fmaximum_fin:
  "foldl fmaximum (Fin m) (map (\<lambda>v. if isfinite v then v else NInf) vs) = Fin (Max (set (m # fin_vals vs)))"
proof (induction vs arbitrary: m rule: fin_vals.induct)
  case (2 x vs)
  have "fmaximum (Fin m) (Fin x) = Fin (max m x)" by (auto simp: fmaximum_def max_def)
  with 2 [of "max m x"] show ?case
    by (simp add: Max_insert_max)
qed (simp_all add: fmaximum_def)

lemma foldl_fmaximum_ninf:
  "foldl fmaximum NInf (map (\<lambda>v. if isfinite v then v else NInf) vs) =
     (if fin_vals vs = [] then NInf else Fin (Max (set (fin_vals vs))))"
proof (induction vs rule: fin_vals.induct)
  case 1
  then show ?case by simp
next
  case (2 x vs)
  have "fmaximum NInf (Fin x) = Fin x" by (simp add: fmaximum_def)
  then show ?case using foldl_fmaximum_fin [of x vs] by simp
qed (simp_all add: fmaximum_def)

lemma foldl_fminimum_fin:
  "foldl fminimum (Fin m) (map (\<lambda>v. if isfinite v then v else PInf) vs) = Fin (Min (set (m # fin_vals vs)))"
proof (induction vs arbitrary: m rule: fin_vals.induct)
  case (2 x vs)
  have "fminimum (Fin m) (Fin x) = Fin (min m x)" by (auto simp: fminimum_def min_def)
  with 2 [of "min m x"] show ?case
    by (simp add: Min_insert_min)
qed (simp_all add: fminimum_def)

lemma foldl_fminimum_pinf:
  "foldl fminimum PInf (map (\<lambda>v. if isfinite v then v else PInf) vs) =
     (if fin_vals vs = [] then PInf else Fin (Min (set (fin_vals vs))))"
proof (induction vs rule: fin_vals.induct)
  case 1
  then show ?case by simp
next
  case (2 x vs)
  have "fminimum PInf (Fin x) = Fin x" by (simp add: fminimum_def)
  then show ?case using foldl_fminimum_fin [of x vs] by simp
qed (simp_all add: fminimum_def)

lemma hd_tl_foldl:
  assumes "vs \<noteq> []"
  shows "foldl f (hd (map g vs)) (tl (map g vs)) = foldl f (g (hd vs)) (map g (tl vs))"
  using assms by (cases vs) simp_all

lemma reduce_max_column:
  assumes "vs \<noteq> []" and "fin_vals vs \<noteq> []"
  shows "foldl fmaximum (hd (map (\<lambda>v. if isfinite v then v else NInf) vs))
           (tl (map (\<lambda>v. if isfinite v then v else NInf) vs)) = Fin (Max (set (fin_vals vs)))"
proof (cases vs)
  case Nil
  with assms show ?thesis by simp
next
  case (Cons v ws)
  show ?thesis
  proof (cases v)
    case (Fin x)
    then show ?thesis using foldl_fmaximum_fin [of x ws] by (simp add: Cons)
  qed (use assms(2) foldl_fmaximum_ninf [of ws] in \<open>simp_all add: Cons\<close>)
qed

lemma reduce_min_column:
  assumes "vs \<noteq> []" and "fin_vals vs \<noteq> []"
  shows "foldl fminimum (hd (map (\<lambda>v. if isfinite v then v else PInf) vs))
           (tl (map (\<lambda>v. if isfinite v then v else PInf) vs)) = Fin (Min (set (fin_vals vs)))"
proof (cases vs)
  case Nil
  with assms show ?thesis by simp
next
  case (Cons v ws)
  show ?thesis
  proof (cases v)
    case (Fin x)
    then show ?thesis using foldl_fminimum_fin [of x ws] by (simp add: Cons)
  qed (use assms(2) foldl_fminimum_pinf [of ws] in \<open>simp_all add: Cons\<close>)
qed

lemma round64_positive_grid:
  assumes "round64 x = Fin r" and "0 < r"
  shows "2 powi (- 1074) \<le> r"
proof -
  from round64_cases [of x] assms have r: "r = nearest64 x" by auto
  from nearest64_grid [of x] obtain k where k: "nearest64 x = of_int k * 2 powi (- 1074)" ..
  have p: "(0::rat) < 2 powi (- 1074)" by (rule zero_less_power_int) simp
  from assms(2) have "0 < of_int k * (2::rat) powi (- 1074)" by (simp only: r k)
  with p have "(0::rat) < of_int k" by (simp add: zero_less_mult_iff)
  then have "1 \<le> k" by simp
  then have "(1::rat) \<le> of_int k" by (simp only: of_int_1_le_iff)
  then have "1 * 2 powi (- 1074) \<le> of_int k * (2::rat) powi (- 1074)"
    using p by (intro mult_right_mono) simp_all
  then show ?thesis by (simp only: r k mult_1)
qed

lemma nearest64_upper:
  assumes "0 \<le> x"
  shows "nearest64 x \<le> x + x * 2 powi (- 53) + 2 powi (- 1075)"
proof (cases "x = 0")
  case True
  then show ?thesis by simp
next
  case False
  have h: "(2::rat) powi (- 53) = 2 powi (- 52) / 2" "(2::rat) powi (- 1075) = 2 powi (- 1074) / 2"
    by (simp_all add: power_int_minus)
  have p: "(0::rat) < 2 powi (- 52)" "(0::rat) < 2 powi (- 1074)"
    by (rule zero_less_power_int, simp)+
  have "nearest64 x - x \<le> \<bar>nearest64 x - x\<bar>" by simp
  also have "\<dots> \<le> 2 powi ulp_exp x / 2" by (rule nearest64_error)
  also have "\<dots> \<le> max (2 powi (- 1074)) (\<bar>x\<bar> * 2 powi (- 52)) / 2"
    using pow_ulp_exp_le [OF False] by (intro divide_right_mono) simp_all
  also have "\<dots> \<le> (2 powi (- 1074) + x * 2 powi (- 52)) / 2"
    using assms p by (intro divide_right_mono) (simp_all add: max_def)
  also have "\<dots> = x * 2 powi (- 53) + 2 powi (- 1075)"
    unfolding h by (simp add: add_divide_distrib)
  finally show ?thesis by simp
qed

lemma nearest64_lower:
  assumes "0 \<le> x"
  shows "x - x * 2 powi (- 53) - 2 powi (- 1075) \<le> nearest64 x"
proof (cases "x = 0")
  case True
  have "(0::rat) < 2 powi (- 1075)" by (rule zero_less_power_int) simp
  with True show ?thesis by simp
next
  case False
  have h: "(2::rat) powi (- 53) = 2 powi (- 52) / 2" "(2::rat) powi (- 1075) = 2 powi (- 1074) / 2"
    by (simp_all add: power_int_minus)
  have p: "(0::rat) < 2 powi (- 52)" "(0::rat) < 2 powi (- 1074)"
    by (rule zero_less_power_int, simp)+
  have "x - nearest64 x \<le> \<bar>nearest64 x - x\<bar>" by simp
  also have "\<dots> \<le> 2 powi ulp_exp x / 2" by (rule nearest64_error)
  also have "\<dots> \<le> max (2 powi (- 1074)) (\<bar>x\<bar> * 2 powi (- 52)) / 2"
    using pow_ulp_exp_le [OF False] by (intro divide_right_mono) simp_all
  also have "\<dots> \<le> (2 powi (- 1074) + x * 2 powi (- 52)) / 2"
    using assms p by (intro divide_right_mono) (simp_all add: max_def)
  also have "\<dots> = x * 2 powi (- 53) + 2 powi (- 1075)"
    unfolding h by (simp add: add_divide_distrib)
  finally show ?thesis by simp
qed

lemma eps_bounds: "0 \<le> eps" "eps \<le> 1"
proof -
  have "(2::rat) powi (- 53) \<le> 2 powi 0" by (intro power_int_increasing) auto
  then show "eps \<le> 1" by (simp add: eps_def)
  show "0 \<le> eps" by (simp add: eps_def)
qed

lemma eta_nonneg: "0 \<le> eta"
  by (simp add: eta_def)

lemma nearest64_near:
  assumes "0 \<le> x"
  shows "\<bar>nearest64 x - x\<bar> \<le> x * eps + eta"
  using nearest64_upper [OF assms] nearest64_lower [OF assms]
  unfolding eps_def eta_def abs_le_iff by linarith

lemma tiny_le_eighth: "tiny \<le> 1 / 8"
proof -
  have "(2::rat) powi (- 1022) \<le> 2 powi (- 3)" by (intro power_int_increasing) auto
  then show ?thesis by (simp add: tiny_def power_int_minus)
qed

lemma grid_eta:
  assumes "round64 x = Fin r" and "0 < r"
  shows "eta \<le> r / 2"
proof -
  have "(2::rat) powi (- 1074) = 2 powi (1 + (- 1075))" by simp
  also have "\<dots> = 2 * eta" unfolding eta_def by (simp only: pow2_add) simp
  finally have "2 * eta \<le> r" using round64_positive_grid [OF assms] by simp
  then show ?thesis by simp
qed

lemma not_domain_masked:
  assumes a: "round64 p = Fin a" and a0: "0 \<le> a" and ar: "a \<le> r"
    and r: "round64 p' = Fin r" and r0: "0 < r"
  shows "\<not> domain_safe_divide (Fin a) (Fin r)"
proof -
  note hr = grid_eta [OF r r0]
  from small_times_tiny [OF round64_finite_bound [OF a]]
  obtain t where t: "round64 (\<bar>a\<bar> * tiny) = Fin t" by auto
  define z where "z = a * tiny"
  have z0: "0 \<le> z" using a0 tiny_pos by (simp add: z_def)
  have zr: "z \<le> r / 8"
  proof -
    have "a * tiny \<le> r * (1 / 8)"
      using ar a0 r0 tiny_le_eighth tiny_pos by (intro mult_mono) simp_all
    then show ?thesis by (simp add: z_def)
  qed
  from round64_cases [of "\<bar>a\<bar> * tiny"] t have tz: "t = nearest64 z" using a0 by (auto simp: z_def)
  have "z * eps \<le> z * 1" using z0 eps_bounds by (intro mult_left_mono)
  with nearest64_near [OF z0] have "t \<le> 2 * z + eta" unfolding tz abs_le_iff by linarith
  with zr hr r0 have "t < r" by linarith
  then have "t < \<bar>r\<bar>" using r0 by simp
  then show ?thesis using t by (simp add: domain_safe_divide_def fge_def)
qed

lemma round64_percent_error:
  assumes "0 \<le> x" and "x \<le> 100"
  shows "\<exists>r. round64 x = Fin r \<and> 0 \<le> r \<and> r \<le> 100 \<and> \<bar>r - x\<bar> \<le> x * eps + eta"
proof -
  from round64_percent [OF assms] obtain r where r: "round64 x = Fin r" "0 \<le> r" "r \<le> 100"
    by auto
  from round64_cases [of x] r(1) have "r = nearest64 x" by auto
  with nearest64_near [OF assms(1)] r show ?thesis by auto
qed

lemma clip1_cases:
  assumes "lo \<le> hi"
  shows "clip1 NaN (Fin lo) (Fin hi) = NaN"
    and "clip1 PInf (Fin lo) (Fin hi) = Fin hi"
    and "clip1 NInf (Fin lo) (Fin hi) = Fin lo"
    and "clip1 (Fin x) (Fin lo) (Fin hi) = Fin (max lo (min x hi))"
  using assms by (auto simp: clip1_def fminimum_def fmaximum_def max_def min_def)

lemma two_roundings:
  fixes x q y u h :: rat
  assumes x0: "0 \<le> x" and u: "0 \<le> u" "u \<le> 1" and h: "0 \<le> h"
    and eq: "\<bar>q - x / 100\<bar> \<le> x / 100 * u + h"
    and ey: "\<bar>y - q * 100\<bar> \<le> q * 100 * u + h"
  shows "\<bar>y - x\<bar> \<le> x * (4 * u) + 256 * h"
proof -
  have q100: "q * 100 \<le> x + x * u + 100 * h"
    using eq unfolding abs_le_iff by linarith
  have "q * 100 * u \<le> (x + x * u + 100 * h) * u"
    using q100 u(1) by (rule mult_right_mono)
  also have "\<dots> = x * u + x * u * u + 100 * h * u" by (simp add: algebra_simps)
  also have "\<dots> \<le> x * u + x * u * 1 + 100 * h * 1"
    using x0 u h by (intro add_mono mult_left_mono) simp_all
  finally have a: "q * 100 * u \<le> 2 * (x * u) + 100 * h" by (simp add: mult_ac)
  have "\<bar>y - x\<bar> \<le> (q * 100 * u + h) + (x * u + 100 * h)"
    using eq ey unfolding abs_le_iff by linarith
  with a have "\<bar>y - x\<bar> \<le> 3 * (x * u) + 201 * h" by linarith
  moreover have "0 \<le> x * u" using x0 u by simp
  ultimately show ?thesis using h by linarith
qed

lemma renormalize_entry:
  assumes x0: "0 \<le> x" and x100: "x \<le> 100" and dbl: "round64 x = Fin x"
  shows "\<exists>y. normalized (Fin x) (Fin 0) False (Fin 100) False = Fin y \<and>
           \<bar>y - x\<bar> \<le> x * 2 powi (- 51) + 2 powi (- 1067)"
proof -
  have u4: "4 * eps = 2 powi (- 51)"
  proof -
    have "(2::rat) powi (- 51) = 2 powi (2 + (- 53))" by simp
    also have "\<dots> = 4 * eps" unfolding eps_def by (simp only: pow2_add) simp
    finally show ?thesis by simp
  qed
  have h256: "256 * eta = 2 powi (- 1067)"
  proof -
    have "(2::rat) powi (- 1067) = 2 powi (8 + (- 1075))" by simp
    also have "\<dots> = 256 * eta" unfolding eta_def by (simp only: pow2_add) simp
    finally show ?thesis by simp
  qed
  have c: "clip1 (Fin x) (Fin 0) (Fin 100) = Fin x"
    using clip1_cases(4) [of 0 100 x] x0 x100 by (simp add: max_def min_def)
  have nd: "\<not> domain_safe_divide (Fin x) (Fin 100)"
    by (rule not_domain_masked [OF dbl x0 x100 round64_100]) simp
  have "0 \<le> x / 100" and "x / 100 \<le> 100" using x0 x100 by simp_all
  from round64_percent_error [OF this] obtain q where
    q: "round64 (x / 100) = Fin q" "0 \<le> q" and eq: "\<bar>q - x / 100\<bar> \<le> x / 100 * eps + eta"
    by auto
  have "0 \<le> x / 100" and "x / 100 \<le> 1" using x0 x100 by simp_all
  from round64_unit [OF this] q(1) have q1: "q \<le> 1" by auto
  have "0 \<le> q * 100" and "q * 100 \<le> 100" using q(2) q1 by simp_all
  from round64_percent_error [OF this] obtain y where
    y: "round64 (q * 100) = Fin y" and ey: "\<bar>y - q * 100\<bar> \<le> q * 100 * eps + eta"
    by auto
  have n: "normalized (Fin x) (Fin 0) False (Fin 100) False = Fin y"
    using normalized_unmasked [OF c] nd q y dbl by (simp add: scaled_def)
  from two_roundings [OF x0 eps_bounds eta_nonneg eq ey]
  have "\<bar>y - x\<bar> \<le> x * (4 * eps) + 256 * eta" .
  then show ?thesis unfolding u4 h256 using n by blast
qed

lemma normalized_nan: "normalized NaN lo klo hi khi = Fin 0"
  by (rule normalized_masked) (simp add: clip1_def fminimum_def fmaximum_def)

lemma domain_masked_zero:
  assumes "a \<noteq> NaN"
  shows "domain_safe_divide a (Fin 0)"
proof (cases a)
  case (Fin x)
  have "0 \<le> \<bar>x\<bar> * tiny" using tiny_pos by simp
  from round64_nonneg [OF this] show ?thesis
    by (auto simp: Fin domain_safe_divide_def fge_def)
qed (use assms tiny_pos in \<open>simp_all add: domain_safe_divide_def fge_def signed_inf_def\<close>)

lemma normalized_zero_range:
  assumes "fsub hi lo = Fin 0"
  shows "normalized v lo klo hi khi = Fin 0"
proof (cases "isfinite (clip1 v lo hi) \<and> \<not> klo \<and> \<not> khi")
  case False
  then show ?thesis by (intro normalized_masked) auto
next
  case True
  then obtain y where w: "clip1 v lo hi = Fin y" by (cases "clip1 v lo hi") auto
  from assms obtain m where lo: "lo = Fin m" by (cases hi; cases lo) auto
  have d: "domain_safe_divide (fsub (Fin y) lo) (Fin 0)"
    by (rule domain_masked_zero) (simp add: lo)
  from True have "\<not> klo" "\<not> khi" by simp_all
  from normalized_unmasked [OF w this] d assms show ?thesis by (simp add: scaled_def)
qed

lemma normalized_formula:
  assumes r: "fsub (Fin hi) (Fin lo) = Fin r" and r0: "0 < r" and v: "v \<noteq> NaN"
  shows "normalized v (Fin lo) False (Fin hi) False =
           fmul (fdiv (fsub (clip1 v (Fin lo) (Fin hi)) (Fin lo)) (Fin r)) (Fin 100)"
    and "lo < hi"
proof -
  from r have rr: "round64 (hi - lo) = Fin r" by simp
  show lh: "lo < hi"
  proof (rule ccontr)
    assume "\<not> lo < hi"
    then have "hi - lo \<le> 0" by simp
    from round64_nonpos [OF this] rr r0 show False by auto
  qed
  from v lh obtain y where w: "clip1 v (Fin lo) (Fin hi) = Fin y" and y: "lo \<le> y" "y \<le> hi"
    using clip1_cases [of lo hi] by (cases v) (auto simp: max_def min_def)
  have p0: "0 \<le> y - lo" and pp: "y - lo \<le> hi - lo" using y by simp_all
  from round64_mono [OF pp] round64_nonneg [OF p0] rr
  obtain a where a: "round64 (y - lo) = Fin a" "0 \<le> a" "a \<le> r" by auto
  have "\<not> domain_safe_divide (Fin a) (Fin r)"
    by (rule not_domain_masked [OF a rr r0])
  with normalized_unmasked [OF w] a r w
  show "normalized v (Fin lo) False (Fin hi) False =
           fmul (fdiv (fsub (clip1 v (Fin lo) (Fin hi)) (Fin lo)) (Fin r)) (Fin 100)"
    by (simp add: scaled_def)
qed

lemma normalize_supplied:
  assumes ws: "well_shaped a" and len: "length mn = ncols a" "length mx = ncols a"
  shows "\<exists>b. normalize_by_columns st a (Some mn) (Some mx) = (st, Inr (b, plain mn, plain mx)) \<and>
           ncols b = ncols a \<and> length (rows b) = length (rows a) \<and>
           (\<forall>i<length (rows a). length (rows b ! i) = ncols a \<and>
              (\<forall>c<ncols a. rows b ! i ! c =
                 normalized (rows a ! i ! c) (mn ! c) False (mx ! c) False))"
proof -
  from rescale_entry [OF ws, of "plain mn" "plain mx"] len
  obtain b where b: "rescale a (plain mn) (plain mx) = Inr b" "ncols b = ncols a"
      "length (rows b) = length (rows a)"
    and e: "\<And>i c. i < length (rows a) \<Longrightarrow> length (rows b ! i) = ncols a \<and>
              (c < ncols a \<longrightarrow> rows b ! i ! c =
                 normalized (rows a ! i ! c) (vdata (plain mn) ! c) (vmask (plain mn) ! c)
                   (vdata (plain mx) ! c) (vmask (plain mx) ! c))"
    by (auto simp: plain_def)
  have "normalize_by_columns st a (Some mn) (Some mx) = (st, Inr (b, plain mn, plain mx))"
    by (simp add: normalize_by_columns_def derive_or_keep_def seterr_all_def seterr_def b(1))
  moreover have "\<forall>i<length (rows a). length (rows b ! i) = ncols a \<and>
              (\<forall>c<ncols a. rows b ! i ! c =
                 normalized (rows a ! i ! c) (mn ! c) False (mx ! c) False)"
    using e len by (auto simp: plain_def)
  ultimately show ?thesis using b by blast
qed

lemma derived_bounds:
  assumes ws: "well_shaped a" and ne: "rows a \<noteq> []"
  shows "\<exists>mn mx. ma_min (masked_invalid a) = Inr mn \<and> ma_max (masked_invalid a) = Inr mx \<and>
           length (vdata mn) = ncols a \<and> length (vmask mn) = ncols a \<and>
           length (vdata mx) = ncols a \<and> length (vmask mx) = ncols a \<and>
           (\<forall>c<ncols a.
              vmask mn ! c = (fin_vals (column (rows a) c) = []) \<and>
              vmask mx ! c = (fin_vals (column (rows a) c) = []) \<and>
              (fin_vals (column (rows a) c) \<noteq> [] \<longrightarrow>
                 vdata mn ! c = Fin (Min (set (fin_vals (column (rows a) c)))) \<and>
                 vdata mx ! c = Fin (Max (set (fin_vals (column (rows a) c))))))"
proof -
  have cne: "column (rows a) c \<noteq> []" for c using ne by (simp add: column_def)
  show ?thesis
    unfolding ma_min_def ma_max_def ma_reduce_masked_invalid [OF ne ws]
    by (simp add: reduce_max_column [OF cne] reduce_min_column [OF cne])
qed

lemma normalize_derived:
  assumes ws: "well_shaped a" and ne: "rows a \<noteq> []" and one: "mins = None \<or> maxs = None"
  shows "\<exists>b mn mx. normalize_by_columns st a mins maxs = (st, Inr (b, mn, mx)) \<and>
           ma_min (masked_invalid a) = Inr mn \<and> ma_max (masked_invalid a) = Inr mx \<and>
           rescale a mn mx = Inr b \<and>
           ncols b = ncols a \<and> length (rows b) = length (rows a) \<and>
           (\<forall>i<length (rows a). length (rows b ! i) = ncols a \<and>
              (\<forall>c<ncols a. rows b ! i ! c =
                 normalized (rows a ! i ! c) (vdata mn ! c) (vmask mn ! c)
                   (vdata mx ! c) (vmask mx ! c)))"
proof -
  from derived_bounds [OF ws ne] obtain mn mx where
    d: "ma_min (masked_invalid a) = Inr mn" "ma_max (masked_invalid a) = Inr mx" and
    l: "length (vdata mn) = ncols a" "length (vmask mn) = ncols a"
       "length (vdata mx) = ncols a" "length (vmask mx) = ncols a"
    by blast
  from rescale_entry [OF ws l] obtain b where b: "rescale a mn mx = Inr b" "ncols b = ncols a"
      "length (rows b) = length (rows a)"
    and e: "\<forall>i<length (rows a). length (rows b ! i) = ncols a \<and>
              (\<forall>c<ncols a. rows b ! i ! c =
                 normalized (rows a ! i ! c) (vdata mn ! c) (vmask mn ! c)
                   (vdata mx ! c) (vmask mx ! c))"
    by blast
  have "normalize_by_columns st a mins maxs = (st, Inr (b, mn, mx))"
    using one by (simp add: normalize_by_columns_def derive_or_keep_def seterr_all_def seterr_def
        d b(1) Let_def)
  with d b e show ?thesis by blast
qed

text \<open>
  Without a row there is nothing to derive the bounds from: the reduction raises, also
  for the shape \<open>(0, 0)\<close>, and the routine is left with every mode at \<^verbatim>\<open>ignore\<close>.
\<close>

lemma no_rows_raises:
  assumes "rows a = []" and "mins = None \<or> maxs = None"
  shows "normalize_by_columns st a mins maxs = (snd (seterr_all Ignore st), Inl ValueError)"
  using assms
  by (simp add: normalize_by_columns_def derive_or_keep_def ma_max_def ma_reduce_def
      masked_invalid_def raise_or_def seterr_all_def)

lemma fin_vals_mem: "x \<in> set (fin_vals vs) \<longleftrightarrow> Fin x \<in> set vs"
  by (induction vs rule: fin_vals.induct) auto

lemma clip1_not_NaN:
  assumes "v \<noteq> NaN"
  shows "\<exists>y. clip1 v (Fin lo) (Fin hi) = Fin y"
  using assms by (cases v) (auto simp: clip1_def fminimum_def fmaximum_def)

lemma derived_entry:
  assumes ws: "well_shaped a" and c: "c < ncols a" and i: "i < length (rows a)"
    and ne: "fin_vals (column (rows a) c) \<noteq> []"
  defines "l \<equiv> Min (set (fin_vals (column (rows a) c)))"
    and "h \<equiv> Max (set (fin_vals (column (rows a) c)))"
  shows "l \<le> h"
    and "rows a ! i ! c = Fin x \<Longrightarrow> clip1 (Fin x) (Fin l) (Fin h) = Fin x"
    and "rows a ! i ! c \<noteq> NaN \<Longrightarrow>
           normalized (rows a ! i ! c) (Fin l) False (Fin h) False =
             scaled (fsub (clip1 (rows a ! i ! c) (Fin l) (Fin h)) (Fin l)) (fsub (Fin h) (Fin l))"
proof -
  let ?S = "set (fin_vals (column (rows a) c))"
  have fin: "finite ?S" and nonempty: "?S \<noteq> {}" using ne by simp_all
  show lh: "l \<le> h" unfolding l_def h_def using fin nonempty by simp
  {
    assume v: "rows a ! i ! c = Fin x"
    have "Fin x \<in> set (column (rows a) c)"
      using i v by (auto simp: column_def intro!: image_eqI [where x = "rows a ! i"])
    then have "x \<in> ?S" by (simp add: fin_vals_mem)
    then have "l \<le> x" "x \<le> h" unfolding l_def h_def using fin by simp_all
    then show "clip1 (Fin x) (Fin l) (Fin h) = Fin x"
      using clip1_cases(4) [OF lh, of x] by (simp add: max_def min_def)
  }
  {
    assume "rows a ! i ! c \<noteq> NaN"
    from clip1_not_NaN [OF this] obtain y where
      y: "clip1 (rows a ! i ! c) (Fin l) (Fin h) = Fin y" by blast
    from normalized_unmasked [OF y, of False False] y
    show "normalized (rows a ! i ! c) (Fin l) False (Fin h) False =
             scaled (fsub (clip1 (rows a ! i ! c) (Fin l) (Fin h)) (Fin l)) (fsub (Fin h) (Fin l))"
      by simp
  }
qed

text \<open>
  Claim C7. On every accepted input the routine returns, leaves the error state as it
  found it, and every entry of the rewritten matrix is a finite number between 0 and
  100: no NaN and no infinity remains. An entry that was NaN is 0, and every entry of a
  column whose range \<open>max - min\<close> is 0 is 0. So a column of NaN only becomes a column of 0
  without raising, and the column \<open>[7, 7, 7]\<close> becomes \<open>[0, 0, 0]\<close>.
\<close>

theorem normalize_leaves_no_invalid:
  assumes "accepted a mins maxs"
  shows "\<exists>b mn mx. normalize_by_columns st a mins maxs = (st, Inr (b, mn, mx)) \<and>
           ncols b = ncols a \<and> length (rows b) = length (rows a) \<and>
           (\<forall>i<length (rows a). length (rows b ! i) = ncols a \<and>
              (\<forall>c<ncols a.
                 (\<exists>s. rows b ! i ! c = Fin s \<and> 0 \<le> s \<and> s \<le> 100) \<and>
                 (rows a ! i ! c = NaN \<longrightarrow> rows b ! i ! c = Fin 0) \<and>
                 (fsub (vdata mx ! c) (vdata mn ! c) = Fin 0 \<longrightarrow> rows b ! i ! c = Fin 0)))"
proof (cases "mins = None \<or> maxs = None")
  case True
  with assms have ws: "well_shaped a" and ne: "rows a \<noteq> []" by (auto simp: accepted_def)
  from normalize_derived [OF ws ne True, of st] obtain b mn mx where
    n: "normalize_by_columns st a mins maxs = (st, Inr (b, mn, mx))"
      "ncols b = ncols a" "length (rows b) = length (rows a)" and
    e: "\<forall>i<length (rows a). length (rows b ! i) = ncols a \<and>
              (\<forall>c<ncols a. rows b ! i ! c =
                 normalized (rows a ! i ! c) (vdata mn ! c) (vmask mn ! c)
                   (vdata mx ! c) (vmask mx ! c))"
    by blast
  have "\<forall>i<length (rows a). length (rows b ! i) = ncols a \<and>
              (\<forall>c<ncols a.
                 (\<exists>s. rows b ! i ! c = Fin s \<and> 0 \<le> s \<and> s \<le> 100) \<and>
                 (rows a ! i ! c = NaN \<longrightarrow> rows b ! i ! c = Fin 0) \<and>
                 (fsub (vdata mx ! c) (vdata mn ! c) = Fin 0 \<longrightarrow> rows b ! i ! c = Fin 0))"
    using e by (auto simp: normalized_range normalized_nan normalized_zero_range)
  with n show ?thesis by blast
next
  case False
  then obtain lo hi where s: "mins = Some lo" "maxs = Some hi" by auto
  with assms have ws: "well_shaped a" and len: "length lo = ncols a" "length hi = ncols a"
    by (auto simp: accepted_def)
  from normalize_supplied [OF ws len, of st] obtain b where
    n: "normalize_by_columns st a mins maxs = (st, Inr (b, plain lo, plain hi))"
      "ncols b = ncols a" "length (rows b) = length (rows a)" and
    e: "\<forall>i<length (rows a). length (rows b ! i) = ncols a \<and>
              (\<forall>c<ncols a. rows b ! i ! c =
                 normalized (rows a ! i ! c) (lo ! c) False (hi ! c) False)"
    unfolding s by blast
  have "\<forall>i<length (rows a). length (rows b ! i) = ncols a \<and>
              (\<forall>c<ncols a.
                 (\<exists>s. rows b ! i ! c = Fin s \<and> 0 \<le> s \<and> s \<le> 100) \<and>
                 (rows a ! i ! c = NaN \<longrightarrow> rows b ! i ! c = Fin 0) \<and>
                 (fsub (vdata (plain hi) ! c) (vdata (plain lo) ! c) = Fin 0 \<longrightarrow>
                    rows b ! i ! c = Fin 0))"
    using e by (auto simp: normalized_range normalized_nan normalized_zero_range plain_def)
  with n show ?thesis by blast
qed

text \<open>
  Claim C3 says that the caller's error state is restored on every exit path, also when
  an exception is raised partway. With bounds of length 2 for an array of 3 columns,
  \<^verbatim>\<open>clip\<close> raises \<^verbatim>\<open>ValueError\<close> after line 145 has set every mode to \<^verbatim>\<open>ignore\<close> and
  before line 165 restores them: the caller, who had every mode at \<^verbatim>\<open>raise\<close>, is left
  with every mode at \<^verbatim>\<open>ignore\<close>.
\<close>

theorem seterr_not_restored_on_error:
  "short_bounds_call = (all_ignore, Inl ValueError) \<and> all_ignore \<noteq> all_raise"
  by (simp add: short_bounds_call_def normalize_by_columns_def derive_or_keep_def rescale_def
      clip_def broadcast_def seterr_all_def plain_def all_ignore_def all_raise_def)

text \<open>
  Claim C10. When only one of \<open>mins\<close> and \<open>maxs\<close> is supplied, the call is the call with
  neither: the supplied vector is ignored. For a well shaped array with a row that call
  returns; the returned pair is the masked minimum and maximum of the matrix, which skip
  invalid entries: a column with a finite entry has the least and the greatest of its
  finite entries, unmasked, and a column without one is masked. The matrix is normalized
  against that pair: an entry of a column without a finite entry, and a NaN entry, becomes
  0; every other entry \<open>v\<close> of a column with least finite entry \<open>l\<close> and greatest \<open>h\<close>
  becomes \<open>(clip v - l) / (h - l) * 100\<close> in double precision arithmetic, 0 when the
  division is masked (as for \<open>h = l\<close>); clipping leaves the finite entries as they are.
\<close>

theorem one_sided_bounds_ignored:
  "normalize_by_columns st a (Some lo) None = normalize_by_columns st a None None \<and>
   normalize_by_columns st a None (Some hi) = normalize_by_columns st a None None \<and>
   (well_shaped a \<and> rows a \<noteq> [] \<longrightarrow>
      (\<exists>b mn mx. normalize_by_columns st a None None = (st, Inr (b, mn, mx)) \<and>
         ma_min (masked_invalid a) = Inr mn \<and> ma_max (masked_invalid a) = Inr mx \<and>
         rescale a mn mx = Inr b \<and>
         ncols b = ncols a \<and> length (rows b) = length (rows a) \<and>
         (\<forall>c<ncols a.
            vmask mn ! c = (fin_vals (column (rows a) c) = []) \<and>
            vmask mx ! c = (fin_vals (column (rows a) c) = []) \<and>
            (fin_vals (column (rows a) c) \<noteq> [] \<longrightarrow>
               vdata mn ! c = Fin (Min (set (fin_vals (column (rows a) c)))) \<and>
               vdata mx ! c = Fin (Max (set (fin_vals (column (rows a) c))))) \<and>
            (\<forall>i<length (rows a).
               length (rows b ! i) = ncols a \<and>
               rows b ! i ! c =
                 (if fin_vals (column (rows a) c) = [] \<or> rows a ! i ! c = NaN then Fin 0
                  else scaled
                         (fsub (clip1 (rows a ! i ! c)
                                  (Fin (Min (set (fin_vals (column (rows a) c)))))
                                  (Fin (Max (set (fin_vals (column (rows a) c))))))
                               (Fin (Min (set (fin_vals (column (rows a) c))))))
                         (fsub (Fin (Max (set (fin_vals (column (rows a) c)))))
                               (Fin (Min (set (fin_vals (column (rows a) c))))))) \<and>
               (\<forall>x. rows a ! i ! c = Fin x \<longrightarrow>
                  clip1 (Fin x) (Fin (Min (set (fin_vals (column (rows a) c)))))
                                (Fin (Max (set (fin_vals (column (rows a) c))))) = Fin x) \<and>
               (\<forall>r. fin_vals (column (rows a) c) \<noteq> [] \<and> rows a ! i ! c \<noteq> NaN \<and>
                    fsub (Fin (Max (set (fin_vals (column (rows a) c)))))
                         (Fin (Min (set (fin_vals (column (rows a) c))))) = Fin r \<and> 0 < r \<longrightarrow>
                  rows b ! i ! c =
                    fmul (fdiv (fsub (clip1 (rows a ! i ! c)
                                        (Fin (Min (set (fin_vals (column (rows a) c)))))
                                        (Fin (Max (set (fin_vals (column (rows a) c))))))
                                     (Fin (Min (set (fin_vals (column (rows a) c))))))
                               (Fin r))
                         (Fin 100))))))"
proof -
  have 1: "normalize_by_columns st a (Some lo) None = normalize_by_columns st a None None"
    and 2: "normalize_by_columns st a None (Some hi) = normalize_by_columns st a None None"
    by (simp_all add: normalize_by_columns_def derive_or_keep_def)
  have 3: "\<exists>b mn mx. normalize_by_columns st a None None = (st, Inr (b, mn, mx)) \<and>
         ma_min (masked_invalid a) = Inr mn \<and> ma_max (masked_invalid a) = Inr mx \<and>
         rescale a mn mx = Inr b \<and>
         ncols b = ncols a \<and> length (rows b) = length (rows a) \<and>
         (\<forall>c<ncols a.
            vmask mn ! c = (fin_vals (column (rows a) c) = []) \<and>
            vmask mx ! c = (fin_vals (column (rows a) c) = []) \<and>
            (fin_vals (column (rows a) c) \<noteq> [] \<longrightarrow>
               vdata mn ! c = Fin (Min (set (fin_vals (column (rows a) c)))) \<and>
               vdata mx ! c = Fin (Max (set (fin_vals (column (rows a) c))))) \<and>
            (\<forall>i<length (rows a).
               length (rows b ! i) = ncols a \<and>
               rows b ! i ! c =
                 (if fin_vals (column (rows a) c) = [] \<or> rows a ! i ! c = NaN then Fin 0
                  else scaled
                         (fsub (clip1 (rows a ! i ! c)
                                  (Fin (Min (set (fin_vals (column (rows a) c)))))
                                  (Fin (Max (set (fin_vals (column (rows a) c))))))
                               (Fin (Min (set (fin_vals (column (rows a) c))))))
                         (fsub (Fin (Max (set (fin_vals (column (rows a) c)))))
                               (Fin (Min (set (fin_vals (column (rows a) c))))))) \<and>
               (\<forall>x. rows a ! i ! c = Fin x \<longrightarrow>
                  clip1 (Fin x) (Fin (Min (set (fin_vals (column (rows a) c)))))
                                (Fin (Max (set (fin_vals (column (rows a) c))))) = Fin x) \<and>
               (\<forall>r. fin_vals (column (rows a) c) \<noteq> [] \<and> rows a ! i ! c \<noteq> NaN \<and>
                    fsub (Fin (Max (set (fin_vals (column (rows a) c)))))
                         (Fin (Min (set (fin_vals (column (rows a) c))))) = Fin r \<and> 0 < r \<longrightarrow>
                  rows b ! i ! c =
                    fmul (fdiv (fsub (clip1 (rows a ! i ! c)
                                        (Fin (Min (set (fin_vals (column (rows a) c)))))
                                        (Fin (Max (set (fin_vals (column (rows a) c))))))
                                     (Fin (Min (set (fin_vals (column (rows a) c))))))
                               (Fin r))
                         (Fin 100))))"
    if ws: "well_shaped a" and ne: "rows a \<noteq> []"
  proof -
    from normalize_derived [OF ws ne, of None None st] obtain b mn mx where
      n: "normalize_by_columns st a None None = (st, Inr (b, mn, mx))"
        "ma_min (masked_invalid a) = Inr mn" "ma_max (masked_invalid a) = Inr mx"
        "rescale a mn mx = Inr b" "ncols b = ncols a" "length (rows b) = length (rows a)" and
      e: "\<forall>i<length (rows a). length (rows b ! i) = ncols a \<and>
              (\<forall>c<ncols a. rows b ! i ! c =
                 normalized (rows a ! i ! c) (vdata mn ! c) (vmask mn ! c)
                   (vdata mx ! c) (vmask mx ! c))"
      by blast
    from derived_bounds [OF ws ne] n(2,3) have
      d: "\<forall>c<ncols a.
            vmask mn ! c = (fin_vals (column (rows a) c) = []) \<and>
            vmask mx ! c = (fin_vals (column (rows a) c) = []) \<and>
            (fin_vals (column (rows a) c) \<noteq> [] \<longrightarrow>
               vdata mn ! c = Fin (Min (set (fin_vals (column (rows a) c)))) \<and>
               vdata mx ! c = Fin (Max (set (fin_vals (column (rows a) c)))))"
      by auto
    have per: "length (rows b ! i) = ncols a \<and>
               rows b ! i ! c =
                 (if fin_vals (column (rows a) c) = [] \<or> rows a ! i ! c = NaN then Fin 0
                  else scaled
                         (fsub (clip1 (rows a ! i ! c)
                                  (Fin (Min (set (fin_vals (column (rows a) c)))))
                                  (Fin (Max (set (fin_vals (column (rows a) c))))))
                               (Fin (Min (set (fin_vals (column (rows a) c))))))
                         (fsub (Fin (Max (set (fin_vals (column (rows a) c)))))
                               (Fin (Min (set (fin_vals (column (rows a) c))))))) \<and>
               (\<forall>x. rows a ! i ! c = Fin x \<longrightarrow>
                  clip1 (Fin x) (Fin (Min (set (fin_vals (column (rows a) c)))))
                                (Fin (Max (set (fin_vals (column (rows a) c))))) = Fin x) \<and>
               (\<forall>r. fin_vals (column (rows a) c) \<noteq> [] \<and> rows a ! i ! c \<noteq> NaN \<and>
                    fsub (Fin (Max (set (fin_vals (column (rows a) c)))))
                         (Fin (Min (set (fin_vals (column (rows a) c))))) = Fin r \<and> 0 < r \<longrightarrow>
                  rows b ! i ! c =
                    fmul (fdiv (fsub (clip1 (rows a ! i ! c)
                                        (Fin (Min (set (fin_vals (column (rows a) c)))))
                                        (Fin (Max (set (fin_vals (column (rows a) c))))))
                                     (Fin (Min (set (fin_vals (column (rows a) c))))))
                               (Fin r))
                         (Fin 100))"
      if c: "c < ncols a" and i: "i < length (rows a)" for c i
    proof -
      let ?col = "fin_vals (column (rows a) c)"
      let ?l = "Min (set ?col)" and ?h = "Max (set ?col)"
      let ?v = "rows a ! i ! c"
      from e i c have len: "length (rows b ! i) = ncols a"
        and en: "rows b ! i ! c = normalized ?v (vdata mn ! c) (vmask mn ! c) (vdata mx ! c) (vmask mx ! c)"
        by simp_all
      show ?thesis
      proof (cases "?col = []")
        case True
        with d c have "vmask mn ! c" by simp
        then have "rows b ! i ! c = Fin 0" unfolding en by (intro normalized_masked) simp
        moreover have "\<forall>x. ?v = Fin x \<longrightarrow> clip1 (Fin x) (Fin ?l) (Fin ?h) = Fin x"
        proof (intro allI impI)
          fix x assume v: "?v = Fin x"
          have "Fin x \<in> set (column (rows a) c)"
            using i v by (auto simp: column_def intro!: image_eqI [where x = "rows a ! i"])
          with True show "clip1 (Fin x) (Fin ?l) (Fin ?h) = Fin x"
            using fin_vals_mem [of x "column (rows a) c"] by simp
        qed
        ultimately show ?thesis using True len by simp
      next
        case False
        with d c have m: "\<not> vmask mn ! c" "\<not> vmask mx ! c"
          "vdata mn ! c = Fin ?l" "vdata mx ! c = Fin ?h" by simp_all
        note de = derived_entry [OF ws c i False]
        have en': "rows b ! i ! c = normalized ?v (Fin ?l) False (Fin ?h) False"
          using en m by simp
        have A: "rows b ! i ! c =
                 (if ?col = [] \<or> ?v = NaN then Fin 0
                  else scaled (fsub (clip1 ?v (Fin ?l) (Fin ?h)) (Fin ?l)) (fsub (Fin ?h) (Fin ?l)))"
          using False en' de(3) by (simp add: normalized_nan)
        have B: "\<forall>x. ?v = Fin x \<longrightarrow> clip1 (Fin x) (Fin ?l) (Fin ?h) = Fin x"
          using de(2) by blast
        have C: "\<forall>r. ?col \<noteq> [] \<and> ?v \<noteq> NaN \<and> fsub (Fin ?h) (Fin ?l) = Fin r \<and> 0 < r \<longrightarrow>
                  rows b ! i ! c =
                    fmul (fdiv (fsub (clip1 ?v (Fin ?l) (Fin ?h)) (Fin ?l)) (Fin r)) (Fin 100)"
          using normalized_formula(1) [of ?h ?l _ ?v] en' by auto
        from len A B C show ?thesis by blast
      qed
    qed
    from n d per show ?thesis by blast
  qed
  from 1 2 3 show ?thesis by blast
qed

text \<open>
  Claim C8. With supplied bounds, one for each column, and a column \<open>c\<close> whose bounds are
  finite with a positive finite range \<open>r = max - min\<close>: clipping leaves NaN, sends
  \<open>+Inf\<close> to the maximum, \<open>-Inf\<close> to the minimum and a finite \<open>x\<close> to
  \<open>max lo (min x hi)\<close>; and the entry written is \<open>(clip v - min) / r * 100\<close> in double
  precision arithmetic (0 for a NaN entry).
\<close>

theorem clip_then_rescale:
  assumes ws: "well_shaped a" and len: "length lo = ncols a" "length hi = ncols a"
    and i: "i < length (rows a)" and c: "c < ncols a"
    and l: "lo ! c = Fin l" and h: "hi ! c = Fin h"
    and r: "fsub (Fin h) (Fin l) = Fin r" and r0: "0 < r"
  shows "\<exists>b. normalize_by_columns st a (Some lo) (Some hi) = (st, Inr (b, plain lo, plain hi)) \<and>
           rows b ! i ! c =
             (if rows a ! i ! c = NaN then Fin 0
              else fmul (fdiv (fsub (clip1 (rows a ! i ! c) (Fin l) (Fin h)) (Fin l)) (Fin r)) (Fin 100)) \<and>
           clip1 NaN (Fin l) (Fin h) = NaN \<and>
           clip1 PInf (Fin l) (Fin h) = Fin h \<and>
           clip1 NInf (Fin l) (Fin h) = Fin l \<and>
           (\<forall>x. clip1 (Fin x) (Fin l) (Fin h) = Fin (max l (min x h)))"
proof -
  from normalize_supplied [OF ws len, of st] i c obtain b where
    n: "normalize_by_columns st a (Some lo) (Some hi) = (st, Inr (b, plain lo, plain hi))" and
    e: "rows b ! i ! c = normalized (rows a ! i ! c) (lo ! c) False (hi ! c) False"
    by blast
  have lh: "l \<le> h" using normalized_formula(2) [OF r r0, of PInf] by simp
  have "rows b ! i ! c =
             (if rows a ! i ! c = NaN then Fin 0
              else fmul (fdiv (fsub (clip1 (rows a ! i ! c) (Fin l) (Fin h)) (Fin l)) (Fin r)) (Fin 100))"
    unfolding e l h using normalized_formula(1) [OF r r0] by (simp add: normalized_nan)
  with n clip1_cases [OF lh] show ?thesis by blast
qed

text \<open>
  Claim C9. With supplied bounds 0 and 100 for every column, an entry \<open>x\<close> between 0 and
  100 that is a double comes back as a double \<open>y\<close> with
  \<open>\<bar>y - x\<bar> \<le> x * 2 powi (- 51) + 2 powi (- 1067)\<close>: unchanged up to two roundings
  (a relative error of four unit roundoffs, and an absolute error below the smallest
  subnormal times 128 where the quotient underflows).
\<close>

theorem renormalize_full_range:
  assumes ws: "well_shaped a" and i: "i < length (rows a)" and c: "c < ncols a"
    and x: "rows a ! i ! c = Fin x" and x0: "0 \<le> x" and x100: "x \<le> 100"
    and dbl: "round64 x = Fin x"
  shows "\<exists>b y. normalize_by_columns st a (Some (replicate (ncols a) (Fin 0)))
                  (Some (replicate (ncols a) (Fin 100))) =
                (st, Inr (b, plain (replicate (ncols a) (Fin 0)), plain (replicate (ncols a) (Fin 100)))) \<and>
           rows b ! i ! c = Fin y \<and>
           \<bar>y - x\<bar> \<le> x * 2 powi (- 51) + 2 powi (- 1067)"
proof -
  from normalize_supplied [OF ws, of "replicate (ncols a) (Fin 0)" "replicate (ncols a) (Fin 100)" st] i c
  obtain b where
    n: "normalize_by_columns st a (Some (replicate (ncols a) (Fin 0)))
                  (Some (replicate (ncols a) (Fin 100))) =
                (st, Inr (b, plain (replicate (ncols a) (Fin 0)), plain (replicate (ncols a) (Fin 100))))" and
    e: "rows b ! i ! c = normalized (rows a ! i ! c) (Fin 0) False (Fin 100) False"
    by auto
  from renormalize_entry [OF x0 x100 dbl] obtain y where
    "normalized (Fin x) (Fin 0) False (Fin 100) False = Fin y"
    "\<bar>y - x\<bar> \<le> x * 2 powi (- 51) + 2 powi (- 1067)"
    by blast
  with n e x show ?thesis by auto
qed

lemma round64_numeral [simp]:
  "(numeral k :: int) < 2 ^ 53 \<Longrightarrow> round64 (numeral k) = Fin (numeral k)"
  using round64_of_int [of "numeral k"] by simp

lemma round64_half [simp]: "round64 (1 / 2) = Fin (1 / 2)"
  by (rule round64_exact [where m = 1 and e = "- 1"]) (simp_all add: power_int_minus)

lemma not_masked_examples:
  "\<not> domain_safe_divide (Fin 0) (Fin 10)"
  "\<not> domain_safe_divide (Fin 5) (Fin 10)"
  "\<not> domain_safe_divide (Fin 10) (Fin 10)"
  using not_domain_masked [of 0 0 10 10] not_domain_masked [of 5 5 10 10]
    not_domain_masked [of 10 10 10 10]
  by simp_all

lemma nan_and_flat_result:
  "normalize_by_columns all_raise nan_and_flat None None =
     (all_raise,
      Inr (\<lparr>ncols = 2, rows = [[Fin 0, Fin 0], [Fin 0, Fin 0], [Fin 0, Fin 0]]\<rparr>,
           \<lparr>vdata = [Fin default_fill_value, Fin 7], vmask = [True, False]\<rparr>,
           \<lparr>vdata = [Fin default_fill_value, Fin 7], vmask = [True, False]\<rparr>))"
  by (simp add: nan_and_flat_def normalize_by_columns_def derive_or_keep_def ma_max_def ma_min_def
      ma_reduce_def masked_invalid_def column_def filled_list_def rescale_def clip_def clip1_def
      ma_isub_def ma_sub_def ma_idiv_def filled_def times_def fminimum_def fmaximum_def
      domain_safe_divide_def fge_def seterr_all_def seterr_def eval_nat_numeral Let_def)

lemma five_values_result:
  "normalize_by_columns all_raise five_values (Some [Fin 0]) (Some [Fin 10]) =
     (all_raise,
      Inr (\<lparr>ncols = 1, rows = [[Fin 0], [Fin 50], [Fin 100], [Fin 100], [Fin 0]]\<rparr>,
           plain [Fin 0], plain [Fin 10]))"
  by (simp add: five_values_def normalize_by_columns_def derive_or_keep_def
      masked_invalid_def filled_list_def rescale_def clip_def clip1_def
      ma_isub_def ma_sub_def ma_idiv_def filled_def times_def fminimum_def fmaximum_def
      not_masked_examples seterr_all_def seterr_def plain_def Let_def)

text \<open>
  The witness for C7: an array with a column of NaN and a column \<open>[7, 7, 7]\<close>, bounds
  derived.
\<close>

theorem normalize_leaves_no_invalid_witness:
  "accepted nan_and_flat None None \<and>
   (\<exists>b mn mx. normalize_by_columns all_raise nan_and_flat None None = (all_raise, Inr (b, mn, mx)) \<and>
      rows b = [[Fin 0, Fin 0], [Fin 0, Fin 0], [Fin 0, Fin 0]] \<and>
      (\<exists>s. rows b ! 2 ! 1 = Fin s \<and> 0 \<le> s \<and> s \<le> 100))"
proof -
  have acc: "accepted nan_and_flat None None"
    by (simp add: accepted_def well_shaped_def nan_and_flat_def)
  from normalize_leaves_no_invalid [OF acc, of all_raise] obtain b mn mx where
    n: "normalize_by_columns all_raise nan_and_flat None None = (all_raise, Inr (b, mn, mx))" and
    e: "\<forall>i<length (rows nan_and_flat). length (rows b ! i) = ncols nan_and_flat \<and>
          (\<forall>c<ncols nan_and_flat. (\<exists>s. rows b ! i ! c = Fin s \<and> 0 \<le> s \<and> s \<le> 100) \<and>
             (rows nan_and_flat ! i ! c = NaN \<longrightarrow> rows b ! i ! c = Fin 0) \<and>
             (fsub (vdata mx ! c) (vdata mn ! c) = Fin 0 \<longrightarrow> rows b ! i ! c = Fin 0))"
    by blast
  from e have "\<exists>s. rows b ! 2 ! 1 = Fin s \<and> 0 \<le> s \<and> s \<le> 100"
    by (simp add: nan_and_flat_def)
  moreover from n nan_and_flat_result
  have "rows b = [[Fin 0, Fin 0], [Fin 0, Fin 0], [Fin 0, Fin 0]]" by auto
  ultimately show ?thesis using acc n by blast
qed

text \<open>
  The witness for C8, the spec's example: with \<open>mins = [0]\<close> and \<open>maxs = [10]\<close> the column
  \<open>[0, 5, 10, 15, -5]\<close> becomes \<open>[0, 50, 100, 100, 0]\<close>.
\<close>

theorem clip_then_rescale_witness:
  "well_shaped five_values \<and> length [Fin 0 :: fval] = ncols five_values \<and>
   length [Fin 10 :: fval] = ncols five_values \<and> 1 < length (rows five_values) \<and>
   0 < ncols five_values \<and> fsub (Fin 10) (Fin 0) = Fin 10 \<and> (0 :: rat) < 10 \<and>
   (\<exists>b. normalize_by_columns all_raise five_values (Some [Fin 0]) (Some [Fin 10]) =
           (all_raise, Inr (b, plain [Fin 0], plain [Fin 10])) \<and>
        rows b = [[Fin 0], [Fin 50], [Fin 100], [Fin 100], [Fin 0]] \<and>
        rows b ! 1 ! 0 = fmul (fdiv (fsub (clip1 (Fin 5) (Fin 0) (Fin 10)) (Fin 0)) (Fin 10)) (Fin 100)) \<and>
   clip1 PInf (Fin 0) (Fin 10) = Fin 10 \<and> clip1 NInf (Fin 0) (Fin 10) = Fin 0 \<and>
   clip1 (Fin 15) (Fin 0) (Fin 10) = Fin 10 \<and> clip1 (Fin (- 5)) (Fin 0) (Fin 10) = Fin 0"
proof -
  have ws: "well_shaped five_values" by (simp add: well_shaped_def five_values_def)
  have len: "length [Fin 0 :: fval] = ncols five_values" "length [Fin 10 :: fval] = ncols five_values"
    by (simp_all add: five_values_def)
  have i: "1 < length (rows five_values)" and c: "0 < ncols five_values"
    by (simp_all add: five_values_def)
  have r: "fsub (Fin 10) (Fin 0) = Fin 10" by simp
  from clip_then_rescale [OF ws len i c _ _ r, of all_raise] obtain b where
    n: "normalize_by_columns all_raise five_values (Some [Fin 0]) (Some [Fin 10]) =
           (all_raise, Inr (b, plain [Fin 0], plain [Fin 10]))" and
    e: "rows b ! 1 ! 0 =
             (if rows five_values ! 1 ! 0 = NaN then Fin 0
              else fmul (fdiv (fsub (clip1 (rows five_values ! 1 ! 0) (Fin 0) (Fin 10)) (Fin 0)) (Fin 10)) (Fin 100))" and
    k: "clip1 PInf (Fin 0) (Fin 10) = Fin 10" "clip1 NInf (Fin 0) (Fin 10) = Fin 0"
       "\<forall>x. clip1 (Fin x) (Fin 0) (Fin 10) = Fin (max 0 (min x 10))"
    by auto
  from n five_values_result have b: "rows b = [[Fin 0], [Fin 50], [Fin 100], [Fin 100], [Fin 0]]"
    by auto
  from e have e': "rows b ! 1 ! 0 =
      fmul (fdiv (fsub (clip1 (Fin 5) (Fin 0) (Fin 10)) (Fin 0)) (Fin 10)) (Fin 100)"
    by (simp add: five_values_def)
  from k(3) have "clip1 (Fin 15) (Fin 0) (Fin 10) = Fin 10" "clip1 (Fin (- 5)) (Fin 0) (Fin 10) = Fin 0"
    by simp_all
  with ws len i c r n b e' k(1,2) show ?thesis by simp
qed

text \<open>
  The witness for C9: the entry 50.
\<close>

theorem renormalize_full_range_witness:
  "well_shaped one_fifty \<and> 0 < length (rows one_fifty) \<and> 0 < ncols one_fifty \<and>
   rows one_fifty ! 0 ! 0 = Fin 50 \<and> (0 :: rat) \<le> 50 \<and> (50 :: rat) \<le> 100 \<and>
   round64 50 = Fin 50 \<and>
   (\<exists>b y. normalize_by_columns all_raise one_fifty (Some [Fin 0]) (Some [Fin 100]) =
             (all_raise, Inr (b, plain [Fin 0], plain [Fin 100])) \<and>
          rows b ! 0 ! 0 = Fin y \<and> \<bar>y - 50\<bar> \<le> 50 * 2 powi (- 51) + 2 powi (- 1067))"
proof -
  have ws: "well_shaped one_fifty" by (simp add: well_shaped_def one_fifty_def)
  have i: "0 < length (rows one_fifty)" and c: "0 < ncols one_fifty"
    and x: "rows one_fifty ! 0 ! 0 = Fin 50"
    by (simp_all add: one_fifty_def)
  have d: "round64 50 = Fin 50" by simp
  have n1: "ncols one_fifty = Suc 0" by (simp add: one_fifty_def)
  from renormalize_full_range [OF ws i c x _ _ d, of all_raise]
  have "\<exists>b y. normalize_by_columns all_raise one_fifty (Some [Fin 0]) (Some [Fin 100]) =
             (all_raise, Inr (b, plain [Fin 0], plain [Fin 100])) \<and>
          rows b ! 0 ! 0 = Fin y \<and> \<bar>y - 50\<bar> \<le> 50 * 2 powi (- 51) + 2 powi (- 1067)"
    unfolding n1 replicate_Suc replicate_0 by simp
  with ws i c x d show ?thesis by simp
qed

lemma not_masked_halves:
  "\<not> domain_safe_divide (Fin 0) (Fin 2)"
  "\<not> domain_safe_divide (Fin 2) (Fin 2)"
  using not_domain_masked [of 0 0 2 2] not_domain_masked [of 2 2 2 2]
  by simp_all

lemma partly_invalid_result:
  "normalize_by_columns all_raise partly_invalid None None =
     (all_raise,
      Inr (\<lparr>ncols = 2, rows = [[Fin 0, Fin 0], [Fin 100, Fin 0]]\<rparr>,
           \<lparr>vdata = [Fin 1, Fin default_fill_value], vmask = [False, True]\<rparr>,
           \<lparr>vdata = [Fin 3, Fin default_fill_value], vmask = [False, True]\<rparr>))"
  by (simp add: partly_invalid_def normalize_by_columns_def derive_or_keep_def ma_max_def ma_min_def
      ma_reduce_def masked_invalid_def column_def filled_list_def rescale_def clip_def clip1_def
      ma_isub_def ma_sub_def ma_idiv_def filled_def times_def fminimum_def fmaximum_def
      not_masked_halves seterr_all_def seterr_def eval_nat_numeral Let_def)

text \<open>
  The witness for C10: a column \<open>[1, 3]\<close> and a column \<open>[NaN, +Inf]\<close>, with a vector
  \<open>[5, 5]\<close> supplied on one side. The derived bounds of the first column are 1 and 3, the
  second column is masked, and the matrix becomes \<open>[[0, 0], [100, 0]]\<close>.
\<close>

theorem one_sided_bounds_ignored_witness:
  "normalize_by_columns all_raise partly_invalid (Some [Fin 5, Fin 5]) None =
     normalize_by_columns all_raise partly_invalid None None \<and>
   normalize_by_columns all_raise partly_invalid None (Some [Fin 5, Fin 5]) =
     normalize_by_columns all_raise partly_invalid None None \<and>
   well_shaped partly_invalid \<and> rows partly_invalid \<noteq> [] \<and>
   (\<exists>b mn mx. normalize_by_columns all_raise partly_invalid None None = (all_raise, Inr (b, mn, mx)) \<and>
      vmask mn ! 0 = False \<and> vmask mn ! 1 = True \<and> vmask mx ! 0 = False \<and> vmask mx ! 1 = True \<and>
      vdata mn ! 0 = Fin 1 \<and> vdata mx ! 0 = Fin 3 \<and>
      rows b ! 0 ! 0 = Fin 0 \<and> rows b ! 1 ! 0 = Fin 100 \<and>
      rows b ! 0 ! 1 = Fin 0 \<and> rows b ! 1 ! 1 = Fin 0 \<and>
      rows b = [[Fin 0, Fin 0], [Fin 100, Fin 0]])"
proof -
  note t = one_sided_bounds_ignored [of all_raise partly_invalid "[Fin 5, Fin 5]" "[Fin 5, Fin 5]"]
  have ws: "well_shaped partly_invalid" and ne: "rows partly_invalid \<noteq> []"
    by (simp_all add: well_shaped_def partly_invalid_def)
  let ?col = "\<lambda>c. fin_vals (column (rows partly_invalid) c)"
  from t ws ne obtain b mn mx where
    n: "normalize_by_columns all_raise partly_invalid None None = (all_raise, Inr (b, mn, mx))" and
    e: "\<forall>c<ncols partly_invalid.
            vmask mn ! c = (?col c = []) \<and>
            vmask mx ! c = (?col c = []) \<and>
            (?col c \<noteq> [] \<longrightarrow>
               vdata mn ! c = Fin (Min (set (?col c))) \<and>
               vdata mx ! c = Fin (Max (set (?col c)))) \<and>
            (\<forall>i<length (rows partly_invalid).
               length (rows b ! i) = ncols partly_invalid \<and>
               rows b ! i ! c =
                 (if ?col c = [] \<or> rows partly_invalid ! i ! c = NaN then Fin 0
                  else scaled
                         (fsub (clip1 (rows partly_invalid ! i ! c)
                                  (Fin (Min (set (?col c)))) (Fin (Max (set (?col c)))))
                               (Fin (Min (set (?col c)))))
                         (fsub (Fin (Max (set (?col c)))) (Fin (Min (set (?col c)))))) \<and>
               (\<forall>x. rows partly_invalid ! i ! c = Fin x \<longrightarrow>
                  clip1 (Fin x) (Fin (Min (set (?col c)))) (Fin (Max (set (?col c)))) = Fin x) \<and>
               (\<forall>r. ?col c \<noteq> [] \<and> rows partly_invalid ! i ! c \<noteq> NaN \<and>
                    fsub (Fin (Max (set (?col c)))) (Fin (Min (set (?col c)))) = Fin r \<and> 0 < r \<longrightarrow>
                  rows b ! i ! c =
                    fmul (fdiv (fsub (clip1 (rows partly_invalid ! i ! c)
                                        (Fin (Min (set (?col c)))) (Fin (Max (set (?col c)))))
                                     (Fin (Min (set (?col c)))))
                               (Fin r))
                         (Fin 100)))"
    by blast
  have c0: "?col 0 = [1, 3]" and c1: "?col 1 = []"
    by (simp_all add: partly_invalid_def column_def)
  have nc: "(0::nat) < ncols partly_invalid" "(1::nat) < ncols partly_invalid"
    and nr: "(0::nat) < length (rows partly_invalid)" "(1::nat) < length (rows partly_invalid)"
    by (simp_all add: partly_invalid_def)
  have v: "rows partly_invalid ! 0 ! 0 = Fin 1" "rows partly_invalid ! 1 ! 0 = Fin 3"
    by (simp_all add: partly_invalid_def)
  note e0 = e [THEN spec, of 0, THEN mp, OF nc(1)]
  note e1 = e [THEN spec, of 1, THEN mp, OF nc(2)]
  note d0 = e0 [THEN conjunct2, THEN conjunct2, THEN conjunct2]
  note d1 = e1 [THEN conjunct2, THEN conjunct2, THEN conjunct2]
  note d00 = d0 [THEN spec, of 0, THEN mp, OF nr(1)]
  note d10 = d0 [THEN spec, of 1, THEN mp, OF nr(2)]
  note d01 = d1 [THEN spec, of 0, THEN mp, OF nr(1)]
  note d11 = d1 [THEN spec, of 1, THEN mp, OF nr(2)]
  from e0 c0 have b0: "vmask mn ! 0 = False \<and> vmask mx ! 0 = False \<and>
      vdata mn ! 0 = Fin 1 \<and> vdata mx ! 0 = Fin 3" by simp
  from e1 c1 have b1: "vmask mn ! 1 = True \<and> vmask mx ! 1 = True" by simp
  from d00 [THEN conjunct2, THEN conjunct2, THEN conjunct2, THEN spec, of 2] c0 v(1)
  have e00: "rows b ! 0 ! 0 =
      fmul (fdiv (fsub (clip1 (Fin 1) (Fin 1) (Fin 3)) (Fin 1)) (Fin 2)) (Fin 100)"
    by simp
  from d10 [THEN conjunct2, THEN conjunct2, THEN conjunct2, THEN spec, of 2] c0 v(2)
  have e10: "rows b ! 1 ! 0 =
      fmul (fdiv (fsub (clip1 (Fin 3) (Fin 1) (Fin 3)) (Fin 1)) (Fin 2)) (Fin 100)"
    by simp
  from d01 [THEN conjunct2, THEN conjunct1] c1 have e01: "rows b ! 0 ! 1 = Fin 0" by simp
  from d11 [THEN conjunct2, THEN conjunct1] c1 have e11: "rows b ! 1 ! 1 = Fin 0" by simp
  from e00 have f00: "rows b ! 0 ! 0 = Fin 0"
    by (simp add: clip1_def fminimum_def fmaximum_def)
  from e10 have f10: "rows b ! 1 ! 0 = Fin 100"
    by (simp add: clip1_def fminimum_def fmaximum_def)
  from n partly_invalid_result have rb: "rows b = [[Fin 0, Fin 0], [Fin 100, Fin 0]]" by auto
  from t ws ne n b0 b1 f00 f10 e01 e11 rb show ?thesis by blast
qed

end
